theory Spec2Isabelle
  imports Main "HOL-Library.Sublist"
begin

section \<open>Text and character classes\<close>

text \<open>
  The parser works on Python \<open>str\<close> values, which are sequences of code points. Text is
  modelled here as \<open>string\<close>, each character standing for one code point in the range
  U+0000 .. U+00FF; \<open>ord\<close> is Python's \<open>ord\<close>. The character classes below are those of
  CPython on that range: \<open>isspace\<close> is both \<open>str.isspace\<close> (used by \<open>strip\<close> and \<open>split\<close>
  without separator) and the regular-expression class \<open>\s\<close>; \<open>isdecimal\<close> is \<open>\d\<close>;
  \<open>isword\<close> is \<open>\w\<close> (alphanumeric or underscore).
\<close>

definition ord :: "char \<Rightarrow> nat" where
  "ord c = of_char c"

definition isspace :: "char \<Rightarrow> bool" where
  "isspace c = (let n = ord c in (9 \<le> n \<and> n \<le> 13) \<or> (28 \<le> n \<and> n \<le> 32) \<or> n = 133 \<or> n = 160)"

definition isdecimal :: "char \<Rightarrow> bool" where
  "isdecimal c = (let n = ord c in 48 \<le> n \<and> n \<le> 57)"

definition isupper_AZ :: "char \<Rightarrow> bool" where
  "isupper_AZ c = (let n = ord c in 65 \<le> n \<and> n \<le> 90)"

definition islower_az :: "char \<Rightarrow> bool" where
  "islower_az c = (let n = ord c in 97 \<le> n \<and> n \<le> 122)"

definition isword :: "char \<Rightarrow> bool" where
  "isword c = (let n = ord c in
     isdecimal c \<or> isupper_AZ c \<or> islower_az c \<or> n = 95 \<or>
     n = 170 \<or> n = 178 \<or> n = 179 \<or> n = 181 \<or> n = 185 \<or> n = 186 \<or>
     n = 188 \<or> n = 189 \<or> n = 190 \<or>
     (192 \<le> n \<and> n \<le> 214) \<or> (216 \<le> n \<and> n \<le> 246) \<or> (248 \<le> n \<and> n \<le> 255))"

text \<open>\<open>s.strip()\<close>: leading and trailing whitespace removed.\<close>

definition strip :: "string \<Rightarrow> string" where
  "strip s = rev (dropWhile isspace (rev (dropWhile isspace s)))"

section \<open>Filename sanitizer\<close>

text \<open>The character class \<open>[A-Za-z0-9 _\-]\<close> of \<open>_safe_filename\<close>.\<close>

definition safe_char :: "char \<Rightarrow> bool" where
  "safe_char c = (isupper_AZ c \<or> islower_az c \<or> isdecimal c \<or>
     c = CHR '' '' \<or> c = CHR ''_'' \<or> c = CHR ''-'')"

text \<open>\<open>re.sub(r'\s+', ' ', s)\<close>: every maximal run of whitespace becomes one space.\<close>

function collapse_ws :: "string \<Rightarrow> string" where
  "collapse_ws [] = []"
| "collapse_ws (c # cs) =
     (if isspace c then CHR '' '' # collapse_ws (dropWhile isspace cs)
      else c # collapse_ws cs)"
  by pat_completeness auto
termination
  by (relation "measure length") (auto simp: length_dropWhile_le less_Suc_eq_le)

text \<open>
  \<open>_safe_filename(s)\<close>, parser.py lines 197-214. On a \<open>str\<close> argument \<open>s or ""\<close> is \<open>s\<close>.
\<close>

definition safe_filename :: "string \<Rightarrow> string" where
  "safe_filename s =
     (let s1 = strip s;
          s2 = filter safe_char s1;
          s3 = strip (collapse_ws s2)
      in s3)"

text \<open>Every whitespace character is a single space not followed by whitespace.\<close>

fun spaced :: "string \<Rightarrow> bool" where
  "spaced [] = True"
| "spaced [a] = (if isspace a then a = CHR '' '' else True)"
| "spaced (a # b # cs) =
     ((if isspace a then a = CHR '' '' \<and> \<not> isspace b else True) \<and> spaced (b # cs))"

section \<open>String operations used by the parser\<close>

text \<open>\<open>s.split(c)\<close> for a one-character separator: the pieces between the separators.\<close>

fun split_char :: "char \<Rightarrow> string \<Rightarrow> string list" where
  "split_char c [] = [[]]"
| "split_char c (x # xs) =
     (if x = c then [] # split_char c xs
      else (case split_char c xs of
              [] \<Rightarrow> [[x]]
            | p # ps \<Rightarrow> (x # p) # ps))"

text \<open>
  \<open>s.split(sep)[0]\<close> for a non-empty separator string: the text before the first
  occurrence of \<open>sep\<close>, or all of \<open>s\<close> when there is none.
\<close>

fun before_first :: "string \<Rightarrow> string \<Rightarrow> string" where
  "before_first sep [] = []"
| "before_first sep (c # cs) =
     (if prefix sep (c # cs) then [] else c # before_first sep cs)"

text \<open>\<open>s.split()\<close>: the maximal runs of non-whitespace characters.\<close>

function split_ws :: "string \<Rightarrow> string list" where
  "split_ws s =
     (let s1 = dropWhile isspace s
      in if s1 = [] then []
         else takeWhile (\<lambda>c. \<not> isspace c) s1 # split_ws (dropWhile (\<lambda>c. \<not> isspace c) s1))"
  by pat_completeness auto
termination
proof (relation "measure length")
  show "wf (measure length)" by simp
next
  fix s :: string and s1 :: string
  assume s1: "s1 = dropWhile isspace s" and ne: "s1 \<noteq> []"
  obtain c cs where c: "s1 = c # cs" using ne by (cases s1) auto
  from ne have "\<not> isspace (hd s1)" unfolding s1 by (rule hd_dropWhile)
  with c have "dropWhile (\<lambda>c. \<not> isspace c) s1 = dropWhile (\<lambda>c. \<not> isspace c) cs" by simp
  then have "length (dropWhile (\<lambda>c. \<not> isspace c) s1) \<le> length cs"
    by (simp add: length_dropWhile_le)
  also have "length cs < length s1" using c by simp
  also have "length s1 \<le> length s" using s1 by (simp add: length_dropWhile_le)
  finally show "(dropWhile (\<lambda>c. \<not> isspace c) s1, s) \<in> measure length" by simp
qed

declare split_ws.simps [simp del]

text \<open>
  \<open>s.split(None, 1)\<close>: the first token and, when anything but whitespace follows it, the
  remainder from the next non-whitespace character to the end of \<open>s\<close>.
\<close>

definition split_ws1 :: "string \<Rightarrow> string list" where
  "split_ws1 s =
     (let s1 = dropWhile isspace s
      in if s1 = [] then []
         else (let tok = takeWhile (\<lambda>c. \<not> isspace c) s1;
                   rest = dropWhile isspace (dropWhile (\<lambda>c. \<not> isspace c) s1)
               in if rest = [] then [tok] else [tok, rest]))"

section \<open>Regular expressions of the parser\<close>

text \<open>
  \<open>re.search\<close> tries the pattern at every position from left to right and returns the
  first match. \<open>m prev s\<close> is the attempt to match at the position where \<open>s\<close> remains
  and \<open>prev\<close> is the character just before it (\<open>None\<close> at the start of the text).
\<close>

fun re_search :: "(char option \<Rightarrow> string \<Rightarrow> 'a option) \<Rightarrow> char option \<Rightarrow> string \<Rightarrow> 'a option" where
  "re_search m prev [] = m prev []"
| "re_search m prev (c # cs) =
     (case m prev (c # cs) of
        Some r \<Rightarrow> Some r
      | None \<Rightarrow> re_search m (Some c) cs)"

text \<open>\<open>\b\<close>: exactly one of the two neighbouring positions holds a word character.\<close>

definition word_boundary :: "char option \<Rightarrow> string \<Rightarrow> bool" where
  "word_boundary prev s =
     ((case prev of None \<Rightarrow> False | Some p \<Rightarrow> isword p) \<noteq>
      (case s of [] \<Rightarrow> False | c # _ \<Rightarrow> isword c))"

text \<open>
  The class-header pattern
  \<open>\s*(\d{5})\s+(\w+)\s+(\d+[A-Z]?)\s+(\d)\s+(.*)\<close>, matched at the start of a line by
  \<open>re.match\<close>; the result is the five groups. Every group is made of non-whitespace
  characters and is followed by \<open>\s+\<close>, and no digit or word character is whitespace, so
  each greedy quantifier takes its maximal run and backtracking never finds another match.
  \<open>.\<close> matches any character but a newline.
\<close>

definition course_match :: "string \<Rightarrow> (string \<times> string \<times> string \<times> string \<times> string) option" where
  "course_match line =
     (let s0 = dropWhile isspace line;
          g1 = take 5 s0;
          r1 = drop 5 s0
      in if length g1 = 5 \<and> list_all isdecimal g1 \<and> r1 \<noteq> [] \<and> isspace (hd r1) then
           (let s2 = dropWhile isspace r1;
                g2 = takeWhile isword s2;
                r2 = dropWhile isword s2
            in if g2 \<noteq> [] \<and> r2 \<noteq> [] \<and> isspace (hd r2) then
                 (let s3 = dropWhile isspace r2;
                      ds = takeWhile isdecimal s3;
                      r3 = dropWhile isdecimal s3;
                      letter = (if r3 \<noteq> [] \<and> isupper_AZ (hd r3) then [hd r3] else []);
                      r3' = drop (length letter) r3
                  in if ds \<noteq> [] \<and> r3' \<noteq> [] \<and> isspace (hd r3') then
                       (let s4 = dropWhile isspace r3';
                            g4 = take 1 s4;
                            r4 = drop 1 s4
                        in if g4 \<noteq> [] \<and> list_all isdecimal g4 \<and> r4 \<noteq> [] \<and> isspace (hd r4) then
                             Some (g1, g2, ds @ letter, g4,
                                   takeWhile (\<lambda>c. c \<noteq> CHR 0x0A) (dropWhile isspace r4))
                           else None)
                     else None)
               else None)
         else None)"

text \<open>The student-number pattern \<open>(G\d{8})\<close> at one position, and \<open>re.search\<close> with it.\<close>

definition gnum_at :: "string \<Rightarrow> string option" where
  "gnum_at s =
     (case s of
        [] \<Rightarrow> None
      | c # cs \<Rightarrow>
          if c = CHR ''G'' \<and> 8 \<le> length cs \<and> list_all isdecimal (take 8 cs)
          then Some (c # take 8 cs) else None)"

definition gnum_search :: "string \<Rightarrow> string option" where
  "gnum_search line = re_search (\<lambda>prev. gnum_at) None line"

section \<open>Settings, class context and student records\<close>

text \<open>
  The settings dictionary (settings.py, \<open>DEFAULT_SETTINGS\<close>). \<open>allowed_courses\<close> is a
  collection of course numbers or \<open>None\<close>; the parser only tests membership in it.
\<close>

record settings =
  department_prefix :: "string option"
  allowed_courses :: "string list option"
  email_domain :: string
  output_name_prefix :: string
  output_subfolder :: string

definition DEFAULT_SETTINGS :: settings where
  "DEFAULT_SETTINGS =
     \<lparr> department_prefix = None,
       allowed_courses = Some [''170'', ''221'', ''223'', ''240'', ''242'', ''244'', ''246'',
                               ''248'', ''252'', ''254'', ''260'', ''265'', ''266'', ''267'',
                               ''270'', ''280A''],
       email_domain = ''@pcc.edu'',
       output_name_prefix = ''GEO_Class_Lists'',
       output_subfolder = ''Output Files'' \<rparr>"

text \<open>
  \<open>current_class\<close> in \<open>main\<close> is either the empty dictionary, which is false in a
  condition, or a dictionary with these five keys: \<open>None\<close> stands for the empty one.
\<close>

record class_ctx =
  ctx_CRN :: string
  ctx_Subject :: string
  ctx_Course_Number :: string
  ctx_Section :: string
  ctx_Course_Name :: string

text \<open>One row of \<open>records\<close>, keyed as the spreadsheet columns are.\<close>

record student_record =
  First_Name :: string
  Last_Name :: string
  G_Number :: string
  PCC_email_address :: string
  Non_PCC_email :: string
  Class :: string
  CRN :: string

datatype error = IndexError | ValueError

section \<open>The document walk of \<open>main\<close>\<close>

text \<open>The body of the header loop, parser.py lines 250-266.\<close>

definition header_line :: "settings \<Rightarrow> class_ctx option \<Rightarrow> string \<Rightarrow> class_ctx option" where
  "header_line st current_class line =
     (case course_match line of
        None \<Rightarrow> current_class
      | Some (g1, g2, g3, g4, g5) \<Rightarrow>
          (let course_number = g3;
               allowed = allowed_courses st
           in if allowed \<noteq> None \<and> course_number \<notin> set (the allowed) then None
              else Some \<lparr> ctx_CRN = g1, ctx_Subject = g2, ctx_Course_Number = course_number,
                          ctx_Section = g4, ctx_Course_Name = strip g5 \<rparr>))"

text \<open>The header loop over the lines of a page, lines 249-266.\<close>

fun header_pass :: "settings \<Rightarrow> class_ctx option \<Rightarrow> string list \<Rightarrow> class_ctx option" where
  "header_pass st current_class [] = current_class"
| "header_pass st current_class (line # lines) =
     header_pass st (header_line st current_class line) lines"

text \<open>
  Lines 274-281: the names before the student number. Any exception inside the \<open>try\<close>
  (here, an index out of range) sets both names to the empty string.
\<close>

definition student_names :: "string \<Rightarrow> string \<Rightarrow> string \<times> string" where
  "student_names line g =
     (let name_part = before_first g line
      in case split_ws1 name_part of
           [tok, rest] \<Rightarrow>
             (case split_char (CHR '','') rest of
                l # f # others \<Rightarrow> (strip l, strip f)
              | _ \<Rightarrow> ('''', ''''))
         | _ \<Rightarrow> ('''', ''''))"

text \<open>
  Lines 286-290: the email on the next line. \<open>email_line.split()[0]\<close> is outside the
  \<open>try\<close> and raises \<open>IndexError\<close> when the stripped line has no token.
\<close>

definition student_email :: "settings \<Rightarrow> string list \<Rightarrow> nat \<Rightarrow> error + string" where
  "student_email st lines idx =
     (if idx + 1 < length lines then
        (let email_line = strip (lines ! (idx + 1))
         in if sublist (email_domain st) email_line then
              (case split_ws email_line of
                 [] \<Rightarrow> Inl IndexError
               | tok # others \<Rightarrow> Inr tok)
            else Inr '''')
      else Inr '''')"

text \<open>
  The body of the student loop at a cursor \<open>idx < len(lines)\<close>, lines 271-304: the record
  appended, if any, and the new cursor.
\<close>

definition try_extract ::
  "settings \<Rightarrow> class_ctx option \<Rightarrow> string list \<Rightarrow> nat \<Rightarrow> error + (student_record option \<times> nat)" where
  "try_extract st current_class lines idx =
     (let line = lines ! idx;
          gnum_match = gnum_search line
      in if gnum_match \<noteq> None \<and> current_class \<noteq> None then
           (let (last_name, first_name) = student_names line (the gnum_match);
                g_number = the gnum_match
            in case student_email st lines idx of
                 Inl e \<Rightarrow> Inl e
               | Inr email \<Rightarrow>
                   Inr (Some \<lparr> First_Name = first_name, Last_Name = last_name,
                                G_Number = g_number, PCC_email_address = email,
                                Non_PCC_email = '''',
                                Class = ctx_Subject (the current_class) @ '' '' @
                                        ctx_Course_Number (the current_class),
                                CRN = ctx_CRN (the current_class) \<rparr>,
                        idx + 2))
         else Inr (None, idx + 1))"

text \<open>The student loop, lines 269-304, appending to \<open>records\<close>.\<close>

function student_rows ::
  "settings \<Rightarrow> class_ctx option \<Rightarrow> string list \<Rightarrow> nat \<Rightarrow> student_record list \<Rightarrow>
   error + student_record list" where
  "student_rows st current_class lines idx records =
     (if idx < length lines then
        (case try_extract st current_class lines idx of
           Inl e \<Rightarrow> Inl e
         | Inr (r, idx') \<Rightarrow>
             student_rows st current_class lines idx'
               (case r of None \<Rightarrow> records | Some x \<Rightarrow> records @ [x]))
      else Inr records)"
  by pat_completeness auto
termination
proof (relation "measure (\<lambda>(st, current_class, lines, idx, records). length lines - idx)")
  show "wf (measure (\<lambda>(st, current_class, lines, idx, records). length lines - idx))" by simp
next
  fix st current_class lines idx and records :: "student_record list" and x2 r idx'
  assume lt: "idx < length lines"
    and x: "try_extract st current_class lines idx = Inr x2" and p: "(r, idx') = x2"
  from x p have "idx' = idx + 2 \<or> idx' = idx + 1"
    by (auto simp: try_extract_def Let_def split: if_splits sum.splits prod.splits)
  with lt show "((st, current_class, lines, idx',
                  case r of None \<Rightarrow> records | Some x \<Rightarrow> records @ [x]),
                 st, current_class, lines, idx, records)
        \<in> measure (\<lambda>(st, current_class, lines, idx, records). length lines - idx)"
    by auto
qed

declare student_rows.simps [simp del]

text \<open>
  One iteration of the page loop, lines 244-304, on the state \<open>(current_class, records)\<close>:
  the page's text is split into lines, the header loop runs over all of them, then the
  student loop does.
\<close>

definition parse_page ::
  "settings \<Rightarrow> class_ctx option \<times> student_record list \<Rightarrow> string \<Rightarrow>
   error + (class_ctx option \<times> student_record list)" where
  "parse_page st state text =
     (let lines = split_char (CHR 0x0A) text;
          current_class = header_pass st (fst state) lines
      in case student_rows st current_class lines 0 (snd state) of
           Inl e \<Rightarrow> Inl e
         | Inr records \<Rightarrow> Inr (current_class, records))"

fun parse_pages ::
  "settings \<Rightarrow> class_ctx option \<times> student_record list \<Rightarrow> string list \<Rightarrow>
   error + (class_ctx option \<times> student_record list)" where
  "parse_pages st state [] = Inr state"
| "parse_pages st state (text # pages) =
     (case parse_page st state text of
        Inl e \<Rightarrow> Inl e
      | Inr state' \<Rightarrow> parse_pages st state' pages)"

text \<open>
  The records \<open>main\<close> holds after the page loop, starting from \<open>records = []\<close> and
  \<open>current_class = {}\<close>; each page is its extracted text (\<open>""\<close> when there is none).
\<close>

definition main_records :: "settings \<Rightarrow> string list \<Rightarrow> error + student_record list" where
  "main_records st pages =
     (case parse_pages st (None, []) pages of
        Inl e \<Rightarrow> Inl e
      | Inr (current_class, records) \<Rightarrow> Inr records)"

section \<open>Term detection\<close>

text \<open>
  Case folding of the letters \<open>A-Z\<close>. With \<open>re.I\<close> a letter of the pattern matches a
  character of the text when both have the same lower case; in the modelled range the
  only characters with the lower case of an ASCII letter are that letter's two cases.
\<close>

definition lower :: "char \<Rightarrow> char" where
  "lower c =
     (case map_of (zip ''ABCDEFGHIJKLMNOPQRSTUVWXYZ'' ''abcdefghijklmnopqrstuvwxyz'') c of
        Some d \<Rightarrow> d
      | None \<Rightarrow> c)"

definition upper :: "char \<Rightarrow> char" where
  "upper c =
     (case map_of (zip ''abcdefghijklmnopqrstuvwxyz'' ''ABCDEFGHIJKLMNOPQRSTUVWXYZ'') c of
        Some d \<Rightarrow> d
      | None \<Rightarrow> c)"

text \<open>
  \<open>s.title()\<close>: a letter that follows a letter is put in lower case, any other letter in
  upper case. Only the letters \<open>A-Z a-z\<close> are treated as letters here; the function is
  applied to a match of one of the four season names, which has no other character.
\<close>

fun title_from :: "bool \<Rightarrow> string \<Rightarrow> string" where
  "title_from previous_is_cased [] = []"
| "title_from previous_is_cased (c # cs) =
     (if isupper_AZ c \<or> islower_az c
      then (if previous_is_cased then lower c else upper c) # title_from True cs
      else c # title_from False cs)"

definition title :: "string \<Rightarrow> string" where
  "title s = title_from False s"

text \<open>
  A literal of the pattern matched without regard to case at the start of \<open>s\<close>: the
  matched text and what follows it.
\<close>

fun match_literal_ci :: "string \<Rightarrow> string \<Rightarrow> (string \<times> string) option" where
  "match_literal_ci [] s = Some ([], s)"
| "match_literal_ci (p # ps) [] = None"
| "match_literal_ci (p # ps) (c # cs) =
     (if lower c = lower p
      then (case match_literal_ci ps cs of
              None \<Rightarrow> None
            | Some (m, rest) \<Rightarrow> Some (c # m, rest))
      else None)"

text \<open>
  The tail \<open>\s+(20\d{2})\b\<close> of \<open>_TERM_TEXT_RE\<close> after a season name: group 2. The
  year starts with a non-whitespace character, so \<open>\s+\<close> takes the whole run.
\<close>

definition term_year :: "string \<Rightarrow> string option" where
  "term_year s =
     (let s1 = dropWhile isspace s;
          y = take 4 s1
      in if s \<noteq> [] \<and> isspace (hd s) \<and> length y = 4 \<and>
            y ! 0 = CHR ''2'' \<and> y ! 1 = CHR ''0'' \<and> isdecimal (y ! 2) \<and> isdecimal (y ! 3) \<and>
            word_boundary (Some (y ! 3)) (drop 4 s1)
         then Some y else None)"

text \<open>
  \<open>_TERM_TEXT_RE = \b(Spring|Summer|Fall|Winter)\s+(20\d{2})\b\<close> with \<open>re.I\<close>, at one
  position: the alternatives are tried in order, each with the rest of the pattern; the
  result is groups 1 and 2.
\<close>

fun term_text_alternatives :: "string list \<Rightarrow> string \<Rightarrow> (string \<times> string) option" where
  "term_text_alternatives [] s = None"
| "term_text_alternatives (name # names) s =
     (case match_literal_ci name s of
        None \<Rightarrow> term_text_alternatives names s
      | Some (m, rest) \<Rightarrow>
          (case term_year rest of
             None \<Rightarrow> term_text_alternatives names s
           | Some y \<Rightarrow> Some (m, y)))"

definition term_text_at :: "char option \<Rightarrow> string \<Rightarrow> (string \<times> string) option" where
  "term_text_at prev s =
     (if word_boundary prev s
      then term_text_alternatives [''Spring'', ''Summer'', ''Fall'', ''Winter''] s
      else None)"

text \<open>\<open>_TERM_CODE_RE = \b(20\d{2}0[1-4])\b\<close> at one position.\<close>

definition term_code_at :: "char option \<Rightarrow> string \<Rightarrow> string option" where
  "term_code_at prev s =
     (let code = take 6 s
      in if word_boundary prev s \<and> length code = 6 \<and>
            code ! 0 = CHR ''2'' \<and> code ! 1 = CHR ''0'' \<and>
            isdecimal (code ! 2) \<and> isdecimal (code ! 3) \<and> code ! 4 = CHR ''0'' \<and>
            49 \<le> ord (code ! 5) \<and> ord (code ! 5) \<le> 52 \<and>
            word_boundary (Some (code ! 5)) (drop 6 s)
         then Some code else None)"

text \<open>
  \<open>_TERM_CODE_RE.finditer(header)\<close>: the matches from left to right, each search
  resuming where the previous match ended.
\<close>

function term_code_finditer :: "char option \<Rightarrow> string \<Rightarrow> string list" where
  "term_code_finditer prev [] = []"
| "term_code_finditer prev (c # cs) =
     (case term_code_at prev (c # cs) of
        Some code \<Rightarrow> code # term_code_finditer (Some (last code)) (drop 6 (c # cs))
      | None \<Rightarrow> term_code_finditer (Some c) cs)"
  by pat_completeness auto
termination
  by (relation "measure (\<lambda>(prev, s). length s)") auto

text \<open>
  \<open>_term_from_code(code)\<close>, lines 102-113. \<open>code[-1]\<close> on an empty string and \<open>int\<close> on a
  character that is no digit raise.
\<close>

definition season_map :: "nat \<Rightarrow> string option" where
  "season_map = map_of [(1, ''Winter''), (2, ''Spring''), (3, ''Summer''), (4, ''Fall'')]"

definition term_from_code :: "string \<Rightarrow> error + string" where
  "term_from_code code =
     (if code = [] then Inl IndexError
      else if \<not> isdecimal (last code) then Inl ValueError
      else Inr (strip ((case season_map (ord (last code) - 48) of
                          Some season \<Rightarrow> season
                        | None \<Rightarrow> '''') @ '' '' @ take 4 code)))"

text \<open>The loop of lines 189-192 over the matches of the term-code pattern.\<close>

fun first_guess :: "string list \<Rightarrow> error + string" where
  "first_guess [] = Inr ''''"
| "first_guess (m # ms) =
     (case term_from_code m of
        Inl e \<Rightarrow> Inl e
      | Inr guess \<Rightarrow> if guess \<noteq> [] then Inr guess else first_guess ms)"

text \<open>
  \<open>_detect_term_from_pdf\<close>, lines 166-194, on the text \<open>header\<close> of the first page
  (\<open>""\<close> when the page has no text or cannot be read).
\<close>

definition detect_term :: "string \<Rightarrow> error + string" where
  "detect_term header =
     (case re_search term_text_at None header of
        Some (g1, g2) \<Rightarrow> Inr (title g1 @ '' '' @ g2)
      | None \<Rightarrow> first_guess (term_code_finditer None header))"

definition detect_term_from_pdf :: "string list \<Rightarrow> error + string" where
  "detect_term_from_pdf pages =
     detect_term (case pages of [] \<Rightarrow> '''' | page # others \<Rightarrow> page)"

section \<open>Notions used to state the properties\<close>

text \<open>The first whitespace-delimited token of a line (empty when the line has none).\<close>

definition first_token :: "string \<Rightarrow> string" where
  "first_token l = takeWhile (\<lambda>c. \<not> isspace c) (dropWhile isspace l)"

text \<open>
  A name region with a leading token, whitespace, and then a remainder with a comma in it:
  \<open>lastp\<close> is the remainder's text before its first comma, \<open>firstp\<close> the text between
  that comma and the next one (or the end of the region).
\<close>

definition name_region :: "string \<Rightarrow> string \<Rightarrow> string \<Rightarrow> bool" where
  "name_region name_part lastp firstp =
     (\<exists>ws0 tok ws1 tail.
        name_part = ws0 @ tok @ ws1 @ lastp @ [CHR '',''] @ firstp @ tail \<and>
        list_all isspace ws0 \<and>
        tok \<noteq> [] \<and> list_all (\<lambda>c. \<not> isspace c) tok \<and>
        ws1 \<noteq> [] \<and> list_all isspace ws1 \<and>
        (lastp = [] \<or> \<not> isspace (hd lastp)) \<and>
        CHR '','' \<notin> set lastp \<and> CHR '','' \<notin> set firstp \<and>
        (tail = [] \<or> hd tail = CHR '',''))"

text \<open>A record carries the class label and CRN of a class context.\<close>

definition tagged :: "class_ctx \<Rightarrow> student_record \<Rightarrow> bool" where
  "tagged c r =
     (Class r = ctx_Subject c @ '' '' @ ctx_Course_Number c \<and> CRN r = ctx_CRN c)"

text \<open>Equality of two texts up to the case of the letters \<open>A-Z\<close>.\<close>

definition ci_equal :: "string \<Rightarrow> string \<Rightarrow> bool" where
  "ci_equal a b = (map lower a = map lower b)"

text \<open>
  An explicit term phrase in a text \<open>pre @ s @ ws @ y @ post\<close>: \<open>s\<close> is the season \<open>name\<close>
  in any case, \<open>ws\<close> is a non-empty run of whitespace, \<open>y\<close> is a four-digit year that begins
  with 20, and no word character stands directly before \<open>s\<close> or directly after \<open>y\<close>.
\<close>

definition term_phrase ::
  "string \<Rightarrow> string \<Rightarrow> string \<Rightarrow> string \<Rightarrow> string \<Rightarrow> string \<Rightarrow> bool" where
  "term_phrase pre name s ws y post =
     (name \<in> set [''Spring'', ''Summer'', ''Fall'', ''Winter''] \<and> ci_equal s name \<and>
      ws \<noteq> [] \<and> list_all isspace ws \<and>
      (\<exists>c d. y = [CHR ''2'', CHR ''0'', c, d] \<and> isdecimal c \<and> isdecimal d) \<and>
      (pre = [] \<or> \<not> isword (last pre)) \<and>
      (post = [] \<or> \<not> isword (hd post)))"

text \<open>
  A term code in a text \<open>pre @ code @ post\<close>: six digits \<open>20dd0k\<close> with \<open>k\<close> from 1 to 4,
  with no word character directly before or after them.
\<close>

definition term_code :: "string \<Rightarrow> string \<Rightarrow> string \<Rightarrow> bool" where
  "term_code pre code post =
     ((\<exists>c d k. code = [CHR ''2'', CHR ''0'', c, d, CHR ''0'', k] \<and>
               isdecimal c \<and> isdecimal d \<and> k \<in> set ''1234'') \<and>
      (pre = [] \<or> \<not> isword (last pre)) \<and>
      (post = [] \<or> \<not> isword (hd post)))"

text \<open>The season table of the term codes, by last digit.\<close>

definition season_of :: "char \<Rightarrow> string" where
  "season_of k =
     (if k = CHR ''1'' then ''Winter'' else if k = CHR ''2'' then ''Spring''
      else if k = CHR ''3'' then ''Summer'' else if k = CHR ''4'' then ''Fall'' else '''')"

section \<open>Properties of the text helpers\<close>

lemma isspace_space [simp]: "isspace (CHR '' '')"
  by (simp add: isspace_def ord_def)

lemma safe_char_space [simp]: "safe_char (CHR '' '')"
  by (simp add: safe_char_def)

lemma safe_isspace: "safe_char c \<Longrightarrow> isspace c \<Longrightarrow> c = CHR '' ''"
  by (auto simp: safe_char_def isspace_def isupper_AZ_def islower_az_def isdecimal_def ord_def Let_def)

lemma rev_dropWhile_takeWhile:
  "xs = rev (dropWhile P (rev xs)) @ rev (takeWhile P (rev xs))"
proof -
  have "rev (takeWhile P (rev xs) @ dropWhile P (rev xs)) = rev (rev xs)"
    by (simp only: takeWhile_dropWhile_id)
  then show ?thesis by (simp only: rev_append rev_rev_ident)
qed

lemma strip_decomp:
  "dropWhile isspace s = strip s @ rev (takeWhile isspace (rev (dropWhile isspace s)))"
  unfolding strip_def by (rule rev_dropWhile_takeWhile)

lemma strip_prefix_suffix:
  "\<exists>a b. s = a @ strip s @ b \<and> list_all isspace a \<and> list_all isspace b"
proof -
  let ?d = "dropWhile isspace s"
  let ?b = "rev (takeWhile isspace (rev ?d))"
  have 1: "s = takeWhile isspace s @ ?d" by simp
  have 3: "list_all isspace (takeWhile isspace s)"
    by (simp add: list_all_iff) (meson set_takeWhileD)
  have 4: "list_all isspace ?b"
    by (simp add: list_all_iff) (meson set_takeWhileD)
  from 1 strip_decomp [of s] have "s = takeWhile isspace s @ strip s @ ?b"
    by metis
  with 3 4 show ?thesis by blast
qed

lemma set_strip: "set (strip s) \<subseteq> set s"
proof -
  obtain a b where "s = a @ strip s @ b" using strip_prefix_suffix by blast
  then have "set s = set a \<union> set (strip s) \<union> set b" by (metis set_append Un_assoc)
  then show ?thesis by blast
qed

lemma strip_ends:
  "strip s = [] \<or> (\<not> isspace (hd (strip s)) \<and> \<not> isspace (last (strip s)))"
proof (cases "strip s = []")
  case True
  then show ?thesis by simp
next
  case False
  let ?d = "dropWhile isspace s"
  let ?e = "dropWhile isspace (rev ?d)"
  from False have e: "?e \<noteq> []" by (simp add: strip_def)
  then have l: "\<not> isspace (hd ?e)" by (rule hd_dropWhile)
  have "last (strip s) = hd ?e" using e by (simp add: strip_def last_rev)
  with l have last: "\<not> isspace (last (strip s))" by simp
  have d: "?d \<noteq> []"
  proof
    assume "?d = []"
    then have "?e = []" by (simp only: rev.simps dropWhile.simps)
    with e show False by simp
  qed
  then have hd: "\<not> isspace (hd ?d)" by (rule hd_dropWhile)
  have "hd ?d = hd (strip s)" using False strip_decomp [of s] by (metis hd_append2)
  with hd last show ?thesis by simp
qed

lemma strip_id:
  assumes "s = [] \<or> (\<not> isspace (hd s) \<and> \<not> isspace (last s))"
  shows "strip s = s"
proof (cases "s = []")
  case True
  then show ?thesis by (simp add: strip_def)
next
  case False
  with assms have h: "\<not> isspace (hd s)" and l: "\<not> isspace (last s)" by auto
  from False h have 1: "dropWhile isspace s = s" by (cases s) auto
  from False l have "\<not> isspace (hd (rev s))" by (simp add: hd_rev)
  with False have 2: "dropWhile isspace (rev s) = rev s" by (cases "rev s") auto
  show ?thesis by (simp add: strip_def 1 2)
qed

lemma strip_strip: "strip (strip s) = strip s"
  using strip_ends [of s] by (rule strip_id)

lemma set_collapse_ws: "set (collapse_ws s) \<subseteq> insert (CHR '' '') (set s)"
proof (induction s rule: collapse_ws.induct)
  case 1
  then show ?case by simp
next
  case (2 c cs)
  have "set (dropWhile isspace cs) \<subseteq> set cs" by (meson set_dropWhileD subsetI)
  with 2 show ?case by auto
qed

lemma collapse_ws_hd:
  "s \<noteq> [] \<Longrightarrow> \<not> isspace (hd s) \<Longrightarrow> collapse_ws s \<noteq> [] \<and> hd (collapse_ws s) = hd s"
  by (cases s) auto

lemma spaced_collapse_ws: "spaced (collapse_ws s)"
proof (induction s rule: collapse_ws.induct)
  case 1
  then show ?case by simp
next
  case (2 c cs)
  show ?case
  proof (cases "isspace c")
    case True
    let ?d = "dropWhile isspace cs"
    have eq: "collapse_ws (c # cs) = CHR '' '' # collapse_ws ?d" using True by simp
    show ?thesis
    proof (cases "?d = []")
      case True
      then have "collapse_ws ?d = []" by (simp only: collapse_ws.simps)
      with eq have "collapse_ws (c # cs) = [CHR '' '']" by (simp only:)
      then show ?thesis by simp
    next
      case False
      then have "\<not> isspace (hd ?d)" by (rule hd_dropWhile)
      with False have "collapse_ws ?d \<noteq> [] \<and> hd (collapse_ws ?d) = hd ?d"
        by (rule collapse_ws_hd)
      then obtain b bs where b: "collapse_ws ?d = b # bs" "b = hd ?d"
        by (cases "collapse_ws ?d") auto
      have "spaced (b # bs)" using 2(1) [OF True] b(1) by (simp only:)
      with \<open>\<not> isspace (hd ?d)\<close> b have "spaced (CHR '' '' # b # bs)" by simp
      with eq b(1) show ?thesis by (simp only:)
    qed
  next
    case False
    with 2(2) show ?thesis by (cases "collapse_ws cs") auto
  qed
qed

lemma spaced_collapse_id: "spaced s \<Longrightarrow> collapse_ws s = s"
proof (induction s rule: spaced.induct)
  case 1
  then show ?case by simp
next
  case (2 a)
  then show ?case by (simp split: if_splits)
next
  case (3 a b cs)
  then show ?case by (auto split: if_splits)
qed

lemma spaced_append: "spaced (xs @ ys) \<Longrightarrow> spaced xs \<and> spaced ys"
proof (induction xs rule: spaced.induct)
  case 1
  then show ?case by simp
next
  case (2 a)
  then show ?case by (cases ys) (auto split: if_splits)
next
  case (3 a b cs)
  then show ?case by (auto split: if_splits)
qed

lemma spaced_strip: "spaced s \<Longrightarrow> spaced (strip s)"
proof -
  assume s: "spaced s"
  obtain a b where "s = a @ strip s @ b" using strip_prefix_suffix by blast
  with s have "spaced (a @ strip s @ b)" by simp
  then have "spaced (strip s @ b)" using spaced_append by blast
  then show ?thesis using spaced_append by blast
qed

lemma spaced_no_double: "spaced (xs @ CHR '' '' # CHR '' '' # ys) \<Longrightarrow> False"
proof -
  assume "spaced (xs @ CHR '' '' # CHR '' '' # ys)"
  then have "spaced (CHR '' '' # CHR '' '' # ys)" using spaced_append by blast
  then show False by simp
qed

lemma safe_filename_chars: "list_all safe_char (safe_filename s)"
proof -
  let ?t = "filter safe_char (strip s)"
  have "set (safe_filename s) \<subseteq> set (collapse_ws ?t)"
    by (simp add: safe_filename_def set_strip)
  also have "\<dots> \<subseteq> insert (CHR '' '') (set ?t)" by (rule set_collapse_ws)
  finally show ?thesis by (auto simp: list_all_iff)
qed

lemma safe_filename_spaced: "spaced (safe_filename s)"
  by (simp add: safe_filename_def spaced_strip spaced_collapse_ws)

section \<open>Filename sanitizer: idempotence\<close>

text \<open>
  C10. \<open>_safe_filename\<close> is idempotent: sanitizing a sanitized name changes nothing. Its
  output consists only of the characters \<open>A-Z a-z 0-9\<close>, space, underscore and hyphen; it
  is empty or begins and ends with a non-whitespace character; and it never contains two
  spaces in a row.
\<close>

theorem safe_filename_idempotent:
  "safe_filename (safe_filename s) = safe_filename s \<and>
   list_all safe_char (safe_filename s) \<and>
   (safe_filename s = [] \<or>
      (\<not> isspace (hd (safe_filename s)) \<and> \<not> isspace (last (safe_filename s)))) \<and>
   (\<forall>xs ys. safe_filename s \<noteq> xs @ ''  '' @ ys)"
proof -
  let ?v = "safe_filename s"
  have chars: "list_all safe_char ?v" by (rule safe_filename_chars)
  have sp: "spaced ?v" by (rule safe_filename_spaced)
  have ends: "?v = [] \<or> (\<not> isspace (hd ?v) \<and> \<not> isspace (last ?v))"
    using strip_ends [of "collapse_ws (filter safe_char (strip s))"]
    by (simp add: safe_filename_def)
  have 1: "strip ?v = ?v" using ends by (rule strip_id)
  have 2: "filter safe_char ?v = ?v" using chars by (simp add: list_all_iff)
  have 3: "collapse_ws ?v = ?v" using sp by (rule spaced_collapse_id)
  have idem: "safe_filename ?v = ?v"
    unfolding safe_filename_def [of ?v] Let_def 1 2 3 ..
  have nodouble: "\<forall>xs ys. ?v \<noteq> xs @ ''  '' @ ys"
    using sp spaced_no_double by fastforce
  from idem chars ends nodouble show ?thesis by blast
qed

theorem safe_filename_idempotent_witness:
  "safe_filename ''GEO_Class_Lists_Fall 2025!!'' = ''GEO_Class_Lists_Fall 2025'' \<and>
   safe_filename (safe_filename ''GEO_Class_Lists_Fall 2025!!'') = ''GEO_Class_Lists_Fall 2025''"
proof -
  have e: "safe_filename ''GEO_Class_Lists_Fall 2025!!'' = ''GEO_Class_Lists_Fall 2025''"
    by (simp add: safe_filename_def strip_def safe_char_def isspace_def isupper_AZ_def
        islower_az_def isdecimal_def ord_def)
  show ?thesis using safe_filename_idempotent [of "''GEO_Class_Lists_Fall 2025!!''"] e by simp
qed

section \<open>Properties of the document walk\<close>

lemma isdecimal_not_isspace: "isdecimal c \<Longrightarrow> \<not> isspace c"
  by (auto simp: isdecimal_def isspace_def Let_def)

lemma isword_not_isspace: "isword c \<Longrightarrow> \<not> isspace c"
  by (auto simp: isword_def isdecimal_def isupper_AZ_def islower_az_def isspace_def Let_def)

lemma isdecimal_isword: "isdecimal c \<Longrightarrow> isword c"
  by (simp add: isword_def Let_def)

lemma sublist_drop_space_prefix:
  "list_all isspace a \<Longrightarrow> d \<noteq> [] \<Longrightarrow> \<not> isspace (hd d) \<Longrightarrow> sublist d (a @ m) \<Longrightarrow> sublist d m"
proof (induction a)
  case Nil
  then show ?case by simp
next
  case (Cons x a)
  from Cons.prems(4) have "prefix d (x # a @ m) \<or> sublist d (a @ m)"
    by (simp add: sublist_Cons_right)
  moreover have "\<not> prefix d (x # a @ m)"
  proof
    assume "prefix d (x # a @ m)"
    with Cons.prems(2) have "hd d = x" by (cases d) auto
    with Cons.prems(1,3) show False by simp
  qed
  ultimately have "sublist d (a @ m)" by simp
  with Cons show ?case by simp
qed

lemma sublist_drop_space_suffix:
  assumes "list_all isspace b" "d \<noteq> []" "\<not> isspace (last d)" "sublist d (m @ b)"
  shows "sublist d m"
proof -
  have "sublist (rev d) (rev b @ rev m)" using assms(4) by (metis rev_append sublist_rev)
  moreover have "list_all isspace (rev b)" using assms(1) by (simp add: list_all_iff)
  moreover have "rev d \<noteq> []" using assms(2) by simp
  moreover have "\<not> isspace (hd (rev d))" using assms(2,3) by (simp add: hd_rev)
  ultimately have "sublist (rev d) (rev m)" using sublist_drop_space_prefix by blast
  then show ?thesis by simp
qed

lemma sublist_strip_imp: "sublist d (strip l) \<Longrightarrow> sublist d l"
proof -
  assume a: "sublist d (strip l)"
  obtain x y where "l = x @ strip l @ y" using strip_prefix_suffix by blast
  moreover from a obtain p q where "strip l = p @ d @ q" unfolding sublist_def by blast
  ultimately have "l = (x @ p) @ d @ (q @ y)" by simp
  then show ?thesis unfolding sublist_def by blast
qed

lemma sublist_strip_iff:
  assumes "d \<noteq> []" "\<not> isspace (hd d)" "\<not> isspace (last d)"
  shows "sublist d (strip l) \<longleftrightarrow> sublist d l"
proof
  assume "sublist d (strip l)" then show "sublist d l" by (rule sublist_strip_imp)
next
  assume s: "sublist d l"
  obtain a b where l: "l = a @ strip l @ b" and a: "list_all isspace a" and b: "list_all isspace b"
    using strip_prefix_suffix by blast
  from s l have "sublist d (a @ strip l @ b)" by simp
  then have "sublist d (strip l @ b)"
    using a assms(1,2) sublist_drop_space_prefix by blast
  then show "sublist d (strip l)"
    using b assms(1,3) sublist_drop_space_suffix by blast
qed

lemma takeWhile_nonspace_append:
  "list_all isspace b \<Longrightarrow>
   takeWhile (\<lambda>c. \<not> isspace c) (a @ b) = takeWhile (\<lambda>c. \<not> isspace c) a"
proof (induction a)
  case Nil
  then show ?case by (cases b) auto
next
  case (Cons x a)
  then show ?case by simp
qed

lemma first_token_strip: "first_token l = takeWhile (\<lambda>c. \<not> isspace c) (strip l)"
proof -
  let ?b = "rev (takeWhile isspace (rev (dropWhile isspace l)))"
  have b: "list_all isspace ?b" by (simp add: list_all_iff) (meson set_takeWhileD)
  have "first_token l = takeWhile (\<lambda>c. \<not> isspace c) (strip l @ ?b)"
    unfolding first_token_def using strip_decomp [of l] by simp
  with b show ?thesis by (simp only: takeWhile_nonspace_append)
qed

lemma dropWhile_isspace_strip: "dropWhile isspace (strip l) = strip l"
  using strip_ends [of l] by (cases "strip l") auto

lemma split_ws_strip:
  "strip l \<noteq> [] \<Longrightarrow> \<exists>rest. split_ws (strip l) = first_token l # rest"
  by (subst split_ws.simps) (simp add: dropWhile_isspace_strip first_token_strip Let_def)

lemma student_email_nonempty_domain:
  assumes "email_domain st \<noteq> []"
  shows "student_email st lines idx =
     Inr (if idx + 1 < length lines \<and> sublist (email_domain st) (strip (lines ! (idx + 1)))
          then first_token (lines ! (idx + 1)) else '''')"
proof (cases "idx + 1 < length lines \<and> sublist (email_domain st) (strip (lines ! (idx + 1)))")
  case True
  then have "strip (lines ! (idx + 1)) \<noteq> []" using assms by auto
  then obtain rest where "split_ws (strip (lines ! (idx + 1))) = first_token (lines ! (idx + 1)) # rest"
    using split_ws_strip by blast
  with True show ?thesis by (simp add: student_email_def)
next
  case False
  then show ?thesis by (auto simp: student_email_def)
qed

lemma try_extract_skip:
  "gnum_search (lines ! idx) = None \<or> current_class = None \<Longrightarrow>
   try_extract st current_class lines idx = Inr (None, idx + 1)"
  by (auto simp: try_extract_def Let_def)

lemma try_extract_emit:
  assumes "gnum_search (lines ! idx) = Some g" "email_domain st \<noteq> []"
  shows "try_extract st (Some c) lines idx =
     Inr (Some \<lparr> First_Name = snd (student_names (lines ! idx) g),
                  Last_Name = fst (student_names (lines ! idx) g),
                  G_Number = g,
                  PCC_email_address =
                    (if idx + 1 < length lines \<and>
                        sublist (email_domain st) (strip (lines ! (idx + 1)))
                     then first_token (lines ! (idx + 1)) else ''''),
                  Non_PCC_email = '''',
                  Class = ctx_Subject c @ '' '' @ ctx_Course_Number c,
                  CRN = ctx_CRN c \<rparr>, idx + 2)"
  using assms
  by (simp add: try_extract_def Let_def student_email_nonempty_domain split: prod.splits)

lemma try_extract_result:
  assumes "try_extract st current_class lines idx = Inr (r, idx')"
  shows "(r = None \<and> idx' = idx + 1 \<and>
            (gnum_search (lines ! idx) = None \<or> current_class = None)) \<or>
         (\<exists>x c. r = Some x \<and> idx' = idx + 2 \<and> current_class = Some c \<and> tagged c x \<and>
            gnum_search (lines ! idx) = Some (G_Number x))"
  using assms
  by (auto simp: try_extract_def Let_def tagged_def split: if_splits sum.splits prod.splits)

lemma student_rows_no_context:
  "student_rows st None lines idx records = Inr records"
proof (induction "length lines - idx" arbitrary: idx rule: less_induct)
  case less
  show ?case
  proof (cases "idx < length lines")
    case True
    have t: "try_extract st None lines idx = Inr (None, idx + 1)"
      by (simp add: try_extract_skip)
    have "length lines - (idx + 1) < length lines - idx" using True by simp
    then have "student_rows st None lines (idx + 1) records = Inr records" by (rule less)
    with True t show ?thesis by (subst student_rows.simps) simp
  next
    case False
    then show ?thesis by (subst student_rows.simps) simp
  qed
qed

lemma header_line_header:
  "course_match h \<noteq> None \<Longrightarrow> header_line st current_class h = header_line st None h"
  by (auto simp: header_line_def)

lemma header_line_no_header:
  "course_match l = None \<Longrightarrow> header_line st current_class l = current_class"
  by (simp add: header_line_def)

lemma header_pass_append:
  "header_pass st current_class (xs @ ys) = header_pass st (header_pass st current_class xs) ys"
  by (induction xs arbitrary: current_class) auto

lemma header_pass_no_headers:
  "\<forall>l \<in> set ls. course_match l = None \<Longrightarrow> header_pass st current_class ls = current_class"
  by (induction ls arbitrary: current_class) (auto simp: header_line_no_header)

lemma header_pass_last_header:
  assumes "course_match h \<noteq> None" "\<forall>l \<in> set post. course_match l = None"
  shows "header_pass st current_class (pre @ h # post) = header_line st None h"
proof -
  have "header_pass st current_class (pre @ h # post) =
        header_pass st (header_line st (header_pass st current_class pre) h) post"
    by (simp add: header_pass_append)
  also have "\<dots> = header_line st (header_pass st current_class pre) h"
    using assms(2) by (rule header_pass_no_headers)
  also have "\<dots> = header_line st None h" using assms(1) by (rule header_line_header)
  finally show ?thesis .
qed

lemma header_line_None_cases:
  "header_line st None l = None \<Longrightarrow> header_line st current_class l = None \<or>
     header_line st current_class l = current_class"
  by (auto simp: header_line_def Let_def split: option.splits if_splits)

lemma header_pass_none_accepted:
  "\<forall>l \<in> set ls. header_line st None l = None \<Longrightarrow> header_pass st None ls = None"
proof (induction ls)
  case Nil
  then show ?case by simp
next
  case (Cons l ls)
  then show ?case by simp
qed

lemma header_pass_origin:
  "header_pass st current_class ls = Some c \<Longrightarrow>
   current_class = Some c \<or> (\<exists>l \<in> set ls. header_line st None l = Some c)"
proof (induction ls arbitrary: current_class)
  case Nil
  then show ?case by simp
next
  case (Cons l ls)
  from Cons.prems have p: "header_pass st (header_line st current_class l) ls = Some c"
    by (simp only: header_pass.simps)
  have "header_line st current_class l = Some c \<or>
        (\<exists>l \<in> set ls. header_line st None l = Some c)"
    using p by (rule Cons.IH)
  then show ?case
  proof
    assume h: "header_line st current_class l = Some c"
    show ?thesis
    proof (cases "course_match l = None")
      case True
      then have "header_line st current_class l = current_class"
        by (rule header_line_no_header)
      with h have "current_class = Some c" by (simp only:)
      then show ?thesis ..
    next
      case False
      then have "header_line st current_class l = header_line st None l"
        by (rule header_line_header)
      with h have "header_line st None l = Some c" by (simp only:)
      then have "\<exists>x \<in> set (l # ls). header_line st None x = Some c"
        by (intro bexI [of _ l]) (assumption, simp)
      then show ?thesis ..
    qed
  next
    assume "\<exists>l \<in> set ls. header_line st None l = Some c"
    then obtain x where "x \<in> set ls" "header_line st None x = Some c" ..
    then have "\<exists>x \<in> set (l # ls). header_line st None x = Some c"
      by (intro bexI [of _ x]) (assumption, simp)
    then show ?thesis ..
  qed
qed

lemma student_rows_tagged:
  "student_rows st (Some c) lines idx records = Inr out \<Longrightarrow>
   \<exists>new. out = records @ new \<and> (\<forall>r \<in> set new. tagged c r)"
proof (induction "length lines - idx" arbitrary: idx records rule: less_induct)
  case less
  show ?case
  proof (cases "idx < length lines")
    case False
    with less.prems have "out = records" by (subst (asm) student_rows.simps) simp
    then show ?thesis by simp
  next
    case True
    from less.prems True obtain r idx' where
      t: "try_extract st (Some c) lines idx = Inr (r, idx')" and
      rec: "student_rows st (Some c) lines idx'
              (case r of None \<Rightarrow> records | Some x \<Rightarrow> records @ [x]) = Inr out"
      by (subst (asm) student_rows.simps) (auto split: sum.splits)
    from try_extract_result [OF t]
    have adv: "idx' = idx + 1 \<or> idx' = idx + 2" and tg: "\<forall>x. r = Some x \<longrightarrow> tagged c x"
      by auto
    from adv True have "length lines - idx' < length lines - idx" by auto
    from less.hyps [OF this rec] obtain new where
      new: "out = (case r of None \<Rightarrow> records | Some x \<Rightarrow> records @ [x]) @ new"
        "\<forall>r \<in> set new. tagged c r" by blast
    show ?thesis
    proof (cases r)
      case None
      with new show ?thesis by auto
    next
      case (Some x)
      with new tg have "out = records @ (x # new) \<and> (\<forall>r \<in> set (x # new). tagged c r)"
        by auto
      then show ?thesis by blast
    qed
  qed
qed

lemma student_rows_total:
  "email_domain st \<noteq> [] \<Longrightarrow> \<exists>out. student_rows st current_class lines idx records = Inr out"
proof (induction "length lines - idx" arbitrary: idx records rule: less_induct)
  case less
  show ?case
  proof (cases "idx < length lines")
    case False
    then show ?thesis by (subst student_rows.simps) simp
  next
    case True
    show ?thesis
    proof (cases "gnum_search (lines ! idx) = None \<or> current_class = None")
      case skip: True
      then have t: "try_extract st current_class lines idx = Inr (None, idx + 1)"
        by (rule try_extract_skip)
      have "length lines - (idx + 1) < length lines - idx" using True by simp
      from less.hyps [OF this less.prems, of records] t True show ?thesis
        by (subst student_rows.simps) simp
    next
      case False
      then obtain g c where g: "gnum_search (lines ! idx) = Some g" and c: "current_class = Some c"
        by auto
      from try_extract_emit [OF g less.prems, of c]
      obtain x where t: "try_extract st current_class lines idx = Inr (Some x, idx + 2)"
        using c by blast
      have "length lines - (idx + 2) < length lines - idx" using True by simp
      from less.hyps [OF this less.prems, of "records @ [x]"] t True show ?thesis
        by (subst student_rows.simps) simp
    qed
  qed
qed

section \<open>Pages: headers before students\<close>

lemma parse_page_Inr:
  assumes "parse_page st (cc, recs0) text = Inr (cc', recs)"
  shows "cc' = header_pass st cc (split_char (CHR 0x0A) text)"
    and "student_rows st cc' (split_char (CHR 0x0A) text) 0 recs0 = Inr recs"
  using assms by (auto simp: parse_page_def Let_def split: sum.splits)

lemma parse_page_total:
  assumes "email_domain st \<noteq> []"
  shows "\<exists>res. parse_page st state text = Inr res"
proof -
  obtain out where
    "student_rows st (header_pass st (fst state) (split_char (CHR 0x0A) text))
       (split_char (CHR 0x0A) text) 0 (snd state) = Inr out"
    using student_rows_total [OF assms] by blast
  then show ?thesis by (simp add: parse_page_def Let_def)
qed

lemma parse_page_records:
  assumes "parse_page st (cc, recs0) text = Inr (cc', recs)"
  shows "\<exists>new. recs = recs0 @ new \<and> (\<forall>r \<in> set new. \<exists>c. cc' = Some c \<and> tagged c r)"
proof (cases cc')
  case None
  with parse_page_Inr(2) [OF assms] have "recs = recs0"
    by (simp add: student_rows_no_context)
  then show ?thesis by simp
next
  case (Some c)
  with parse_page_Inr(2) [OF assms]
  have "student_rows st (Some c) (split_char (CHR 0x0A) text) 0 recs0 = Inr recs" by simp
  from student_rows_tagged [OF this] Some show ?thesis by auto
qed

text \<open>
  C1. On every page the header loop runs over all lines before the student loop starts:
  the context after the page is the one the header loop leaves, and every record the page
  adds carries that context's class and CRN. So when \<open>h\<close> is the last header-shaped line of
  the page, the context it sets (or clears) governs all records of the page, also those of
  student lines above \<open>h\<close>. With a non-empty email domain the page never fails.
\<close>

theorem page_headers_before_students:
  "(email_domain st \<noteq> [] \<longrightarrow> (\<exists>res. parse_page st (cc, recs0) text = Inr res)) \<and>
   (\<forall>cc' recs. parse_page st (cc, recs0) text = Inr (cc', recs) \<longrightarrow>
      cc' = header_pass st cc (split_char (CHR 0x0A) text) \<and>
      (\<exists>new. recs = recs0 @ new \<and> (\<forall>r \<in> set new. \<exists>c. cc' = Some c \<and> tagged c r)) \<and>
      (\<forall>pre h post.
         split_char (CHR 0x0A) text = pre @ h # post \<and> course_match h \<noteq> None \<and>
         (\<forall>l \<in> set post. course_match l = None) \<longrightarrow>
         cc' = header_line st None h))"
proof (intro conjI impI allI)
  assume "email_domain st \<noteq> []"
  then show "\<exists>res. parse_page st (cc, recs0) text = Inr res" by (rule parse_page_total)
next
  fix cc' recs
  assume p: "parse_page st (cc, recs0) text = Inr (cc', recs)"
  show "cc' = header_pass st cc (split_char (CHR 0x0A) text)"
    using p by (rule parse_page_Inr(1))
next
  fix cc' recs
  assume p: "parse_page st (cc, recs0) text = Inr (cc', recs)"
  show "\<exists>new. recs = recs0 @ new \<and> (\<forall>r \<in> set new. \<exists>c. cc' = Some c \<and> tagged c r)"
    using p by (rule parse_page_records)
next
  fix cc' recs pre h post
  assume p: "parse_page st (cc, recs0) text = Inr (cc', recs)"
    and s: "split_char (CHR 0x0A) text = pre @ h # post \<and> course_match h \<noteq> None \<and>
            (\<forall>l \<in> set post. course_match l = None)"
  have "cc' = header_pass st cc (pre @ h # post)"
    using parse_page_Inr(1) [OF p] s by simp
  also have "\<dots> = header_line st None h"
    using s by (intro header_pass_last_header) auto
  finally show "cc' = header_line st None h" .
qed

theorem page_headers_before_students_witness:
  "email_domain DEFAULT_SETTINGS \<noteq> [] \<and>
   parse_page DEFAULT_SETTINGS (None, [])
     (''1 Doe, Jane G12345678'' @ [CHR 0x0A] @ ''jdoe@pcc.edu'' @ [CHR 0x0A] @
      ''12345 GEO 170 1 Intro to Geography'') =
   Inr (Some \<lparr> ctx_CRN = ''12345'', ctx_Subject = ''GEO'', ctx_Course_Number = ''170'',
                ctx_Section = ''1'', ctx_Course_Name = ''Intro to Geography'' \<rparr>,
        [\<lparr> First_Name = ''Jane'', Last_Name = ''Doe'', G_Number = ''G12345678'',
           PCC_email_address = ''jdoe@pcc.edu'', Non_PCC_email = '''',
           Class = ''GEO 170'', CRN = ''12345'' \<rparr>]) \<and>
   header_pass DEFAULT_SETTINGS None
     (split_char (CHR 0x0A)
        (''1 Doe, Jane G12345678'' @ [CHR 0x0A] @ ''jdoe@pcc.edu'' @ [CHR 0x0A] @
         ''12345 GEO 170 1 Intro to Geography'')) =
   Some \<lparr> ctx_CRN = ''12345'', ctx_Subject = ''GEO'', ctx_Course_Number = ''170'',
           ctx_Section = ''1'', ctx_Course_Name = ''Intro to Geography'' \<rparr>"
proof -
  let ?text = "''1 Doe, Jane G12345678'' @ [CHR 0x0A] @ ''jdoe@pcc.edu'' @ [CHR 0x0A] @
      ''12345 GEO 170 1 Intro to Geography''"
  let ?c = "\<lparr> ctx_CRN = ''12345'', ctx_Subject = ''GEO'', ctx_Course_Number = ''170'',
                ctx_Section = ''1'', ctx_Course_Name = ''Intro to Geography'' \<rparr>"
  let ?r = "\<lparr> First_Name = ''Jane'', Last_Name = ''Doe'', G_Number = ''G12345678'',
           PCC_email_address = ''jdoe@pcc.edu'', Non_PCC_email = '''',
           Class = ''GEO 170'', CRN = ''12345'' \<rparr>"
  have d: "email_domain DEFAULT_SETTINGS \<noteq> []" by (simp add: DEFAULT_SETTINGS_def)
  have e: "parse_page DEFAULT_SETTINGS (None, []) ?text = Inr (Some ?c, [?r])"
    by code_simp
  from page_headers_before_students [of DEFAULT_SETTINGS None "[]" ?text] e
  have "Some ?c = header_pass DEFAULT_SETTINGS None (split_char (CHR 0x0A) ?text)"
    by blast
  with d e show ?thesis by simp
qed

section \<open>The whole walk: records and contexts\<close>

lemma parse_pages_invariant:
  assumes "parse_pages st (cc, recs0) pages = Inr (cc', recs)"
    and "\<forall>c. cc = Some c \<longrightarrow> P c"
    and "\<forall>r \<in> set recs0. \<exists>c. P c \<and> tagged c r"
    and "\<forall>page \<in> set pages. \<forall>line \<in> set (split_char (CHR 0x0A) page).
           \<forall>c. header_line st None line = Some c \<longrightarrow> P c"
  shows "(\<forall>c. cc' = Some c \<longrightarrow> P c) \<and> (\<forall>r \<in> set recs. \<exists>c. P c \<and> tagged c r)"
  using assms
proof (induction pages arbitrary: cc recs0)
  case Nil
  then show ?case by simp
next
  case (Cons page_text pages)
  from Cons.prems(1) obtain cc1 recs1 where
    p: "parse_page st (cc, recs0) page_text = Inr (cc1, recs1)" and
    rest: "parse_pages st (cc1, recs1) pages = Inr (cc', recs)"
    by (auto split: sum.splits)
  let ?lines = "split_char (CHR 0x0A) page_text"
  have cc1: "cc1 = header_pass st cc ?lines" using p by (rule parse_page_Inr(1))
  have 1: "\<forall>c. cc1 = Some c \<longrightarrow> P c"
  proof (intro allI impI)
    fix c assume "cc1 = Some c"
    with cc1 have "header_pass st cc ?lines = Some c" by simp
    from header_pass_origin [OF this] show "P c"
    proof
      assume "cc = Some c"
      with Cons.prems(2) show ?thesis by simp
    next
      assume "\<exists>l \<in> set ?lines. header_line st None l = Some c"
      with Cons.prems(4) show ?thesis by auto
    qed
  qed
  from parse_page_records [OF p] obtain new where
    new: "recs1 = recs0 @ new" "\<forall>r \<in> set new. \<exists>c. cc1 = Some c \<and> tagged c r" by blast
  have 2: "\<forall>r \<in> set recs1. \<exists>c. P c \<and> tagged c r"
  proof
    fix r assume "r \<in> set recs1"
    with new(1) have "r \<in> set recs0 \<or> r \<in> set new" by simp
    then show "\<exists>c. P c \<and> tagged c r"
    proof
      assume "r \<in> set recs0"
      with Cons.prems(3) show ?thesis by simp
    next
      assume "r \<in> set new"
      with new(2) obtain c where "cc1 = Some c" "tagged c r" by blast
      with 1 show ?thesis by blast
    qed
  qed
  have 3: "\<forall>page \<in> set pages. \<forall>line \<in> set (split_char (CHR 0x0A) page).
           \<forall>c. header_line st None line = Some c \<longrightarrow> P c"
    using Cons.prems(4) by simp
  from Cons.IH [OF rest 1 2 3] show ?case .
qed

text \<open>
  C6. A record is created only while a class context is active, and its class label and
  CRN are those of that context; with no active context the line is skipped. Over the
  whole walk, which starts with no context, every record that \<open>main\<close> ends up with carries
  the class label and CRN of a context set by a header line of the document that passed
  the course filter.
\<close>

theorem records_carry_active_context:
  "(\<forall>r idx'. try_extract st current_class lines idx = Inr (Some r, idx') \<longrightarrow>
      (\<exists>c. current_class = Some c \<and> tagged c r)) \<and>
   try_extract st None lines idx = Inr (None, idx + 1) \<and>
   (\<forall>recs. main_records st pages = Inr recs \<longrightarrow>
      (\<forall>r \<in> set recs. \<exists>page \<in> set pages. \<exists>line \<in> set (split_char (CHR 0x0A) page).
         \<exists>c. header_line st None line = Some c \<and> tagged c r))"
proof (intro conjI allI impI)
  fix r idx'
  assume "try_extract st current_class lines idx = Inr (Some r, idx')"
  from try_extract_result [OF this] show "\<exists>c. current_class = Some c \<and> tagged c r" by auto
next
  show "try_extract st None lines idx = Inr (None, idx + 1)"
    by (simp add: try_extract_skip)
next
  fix recs
  assume m: "main_records st pages = Inr recs"
  let ?P = "\<lambda>c. \<exists>page \<in> set pages. \<exists>line \<in> set (split_char (CHR 0x0A) page).
              header_line st None line = Some c"
  from m obtain cc' where p: "parse_pages st (None, []) pages = Inr (cc', recs)"
    by (auto simp: main_records_def split: sum.splits)
  have "(\<forall>c. cc' = Some c \<longrightarrow> ?P c) \<and> (\<forall>r \<in> set recs. \<exists>c. ?P c \<and> tagged c r)"
    by (rule parse_pages_invariant [OF p]) auto
  then show "\<forall>r \<in> set recs. \<exists>page \<in> set pages. \<exists>line \<in> set (split_char (CHR 0x0A) page).
         \<exists>c. header_line st None line = Some c \<and> tagged c r"
    by blast
qed

theorem records_carry_active_context_witness:
  "main_records DEFAULT_SETTINGS
     [''12345 GEO 170 1 Intro to Geography'' @ [CHR 0x0A] @ ''1 Doe, Jane G12345678'' @
      [CHR 0x0A] @ ''jdoe@pcc.edu''] =
   Inr [\<lparr> First_Name = ''Jane'', Last_Name = ''Doe'', G_Number = ''G12345678'',
           PCC_email_address = ''jdoe@pcc.edu'', Non_PCC_email = '''',
           Class = ''GEO 170'', CRN = ''12345'' \<rparr>] \<and>
   (\<exists>line \<in> set (split_char (CHR 0x0A)
        (''12345 GEO 170 1 Intro to Geography'' @ [CHR 0x0A] @ ''1 Doe, Jane G12345678'' @
         [CHR 0x0A] @ ''jdoe@pcc.edu'')).
      \<exists>c. header_line DEFAULT_SETTINGS None line = Some c \<and>
          tagged c \<lparr> First_Name = ''Jane'', Last_Name = ''Doe'', G_Number = ''G12345678'',
                     PCC_email_address = ''jdoe@pcc.edu'', Non_PCC_email = '''',
                     Class = ''GEO 170'', CRN = ''12345'' \<rparr>)"
proof -
  let ?p = "''12345 GEO 170 1 Intro to Geography'' @ [CHR 0x0A] @ ''1 Doe, Jane G12345678'' @
      [CHR 0x0A] @ ''jdoe@pcc.edu''"
  let ?r = "\<lparr> First_Name = ''Jane'', Last_Name = ''Doe'', G_Number = ''G12345678'',
           PCC_email_address = ''jdoe@pcc.edu'', Non_PCC_email = '''',
           Class = ''GEO 170'', CRN = ''12345'' \<rparr>"
  have e: "main_records DEFAULT_SETTINGS [?p] = Inr [?r]" by code_simp
  from records_carry_active_context [of DEFAULT_SETTINGS None "[]" 0 "[?p]"] e
  have "\<forall>r \<in> set [?r]. \<exists>page \<in> set [?p]. \<exists>line \<in> set (split_char (CHR 0x0A) page).
         \<exists>c. header_line DEFAULT_SETTINGS None line = Some c \<and> tagged c r"
    by blast
  then have "\<exists>line \<in> set (split_char (CHR 0x0A) ?p).
         \<exists>c. header_line DEFAULT_SETTINGS None line = Some c \<and> tagged c ?r"
    by simp
  with e show ?thesis by (intro conjI)
qed

section \<open>The course filter\<close>

lemma header_line_rejected:
  assumes "course_match h = Some (g1, g2, g3, g4, g5)"
    and "allowed_courses st = Some allowed" and "g3 \<notin> set allowed"
  shows "header_line st current_class h = None"
  using assms by (simp add: header_line_def)

lemma parse_page_no_context:
  assumes "header_pass st cc (split_char (CHR 0x0A) page_text) = None"
  shows "parse_page st (cc, recs0) page_text = Inr (None, recs0)"
  using assms by (simp add: parse_page_def Let_def student_rows_no_context)

lemma parse_pages_no_accepted_header:
  assumes "\<forall>p \<in> set pages. \<forall>l \<in> set (split_char (CHR 0x0A) p). header_line st None l = None"
  shows "parse_pages st (None, recs0) pages = Inr (None, recs0)"
  using assms
proof (induction pages)
  case Nil
  then show ?case by simp
next
  case (Cons p pages)
  then have "header_pass st None (split_char (CHR 0x0A) p) = None"
    by (intro header_pass_none_accepted) simp
  then have "parse_page st (None, recs0) p = Inr (None, recs0)"
    by (rule parse_page_no_context)
  with Cons show ?case by simp
qed

text \<open>
  C5 (amended). A header line whose course number is not in the configured allow-list
  clears the class context, and while the context is clear the student loop adds no record.
  Since a page's headers are all processed before its student lines, the records suppressed
  are those of the whole page of the rejected header, provided no accepted header follows
  it on that page, and of the following pages up to the next page with an accepted header.
\<close>

theorem rejected_header_clears_context:
  assumes "course_match h = Some (g1, g2, g3, g4, g5)"
    and "allowed_courses st = Some allowed" and "g3 \<notin> set allowed"
  shows "header_line st current_class h = None \<and>
    (\<forall>lines idx records. student_rows st None lines idx records = Inr records) \<and>
    (\<forall>page_text pre post pages records.
       split_char (CHR 0x0A) page_text = pre @ h # post \<and>
       (\<forall>l \<in> set post. header_line st None l = None) \<and>
       (\<forall>p \<in> set pages. \<forall>l \<in> set (split_char (CHR 0x0A) p). header_line st None l = None) \<longrightarrow>
       parse_pages st (current_class, records) (page_text # pages) = Inr (None, records))"
proof (intro conjI allI impI)
  show "header_line st current_class h = None"
    using assms by (rule header_line_rejected)
next
  fix lines idx records
  show "student_rows st None lines idx records = Inr records"
    by (rule student_rows_no_context)
next
  fix page_text pre post pages records
  assume a: "split_char (CHR 0x0A) page_text = pre @ h # post \<and>
       (\<forall>l \<in> set post. header_line st None l = None) \<and>
       (\<forall>p \<in> set pages. \<forall>l \<in> set (split_char (CHR 0x0A) p). header_line st None l = None)"
  have "header_pass st current_class (pre @ h # post) =
        header_pass st (header_line st (header_pass st current_class pre) h) post"
    by (simp add: header_pass_append)
  also have "\<dots> = header_pass st None post"
    using header_line_rejected [OF assms] by simp
  also have "\<dots> = None" using a by (intro header_pass_none_accepted) simp
  finally have "header_pass st current_class (split_char (CHR 0x0A) page_text) = None"
    using a by simp
  then have "parse_page st (current_class, records) page_text = Inr (None, records)"
    by (rule parse_page_no_context)
  moreover have "parse_pages st (None, records) pages = Inr (None, records)"
    using a by (intro parse_pages_no_accepted_header) simp
  ultimately show "parse_pages st (current_class, records) (page_text # pages) = Inr (None, records)"
    by simp
qed

theorem rejected_header_clears_context_witness:
  "header_line (DEFAULT_SETTINGS\<lparr>allowed_courses := Some [''170'']\<rparr>)
     (Some \<lparr> ctx_CRN = ''12345'', ctx_Subject = ''GEO'', ctx_Course_Number = ''170'',
             ctx_Section = ''1'', ctx_Course_Name = ''Intro to Geography'' \<rparr>)
     ''54321 GEO 221 2 Advanced Geo'' = None \<and>
   parse_pages (DEFAULT_SETTINGS\<lparr>allowed_courses := Some [''170'']\<rparr>)
     (Some \<lparr> ctx_CRN = ''12345'', ctx_Subject = ''GEO'', ctx_Course_Number = ''170'',
             ctx_Section = ''1'', ctx_Course_Name = ''Intro to Geography'' \<rparr>, [])
     [''54321 GEO 221 2 Advanced Geo'' @ [CHR 0x0A] @ ''2 Smith, John G87654321'',
      ''3 Roe, Ann G11112222''] = Inr (None, [])"
proof -
  let ?st = "DEFAULT_SETTINGS\<lparr>allowed_courses := Some [''170'']\<rparr>"
  let ?h = "''54321 GEO 221 2 Advanced Geo''"
  let ?t = "''54321 GEO 221 2 Advanced Geo'' @ [CHR 0x0A] @ ''2 Smith, John G87654321''"
  have 1: "course_match ?h = Some (''54321'', ''GEO'', ''221'', ''2'', ''Advanced Geo'')"
    by code_simp
  have 2: "allowed_courses ?st = Some [''170'']" by simp
  have 3: "''221'' \<notin> set [''170'']" by simp
  have 4: "split_char (CHR 0x0A) ?t = [] @ ?h # [''2 Smith, John G87654321'']" by code_simp
  have 5: "\<forall>l \<in> set [''2 Smith, John G87654321'']. header_line ?st None l = None"
    by code_simp
  have 6: "\<forall>p \<in> set [''3 Roe, Ann G11112222'']. \<forall>l \<in> set (split_char (CHR 0x0A) p).
             header_line ?st None l = None"
    by code_simp
  from rejected_header_clears_context [OF 1 2 3] 4 5 6 show ?thesis by blast
qed

theorem rejected_header_later_header_counterexample:
  "header_line (DEFAULT_SETTINGS\<lparr>allowed_courses := Some [''170'']\<rparr>) None
     ''54321 GEO 221 2 Advanced Geo'' = None \<and>
   main_records (DEFAULT_SETTINGS\<lparr>allowed_courses := Some [''170'']\<rparr>)
     [''54321 GEO 221 2 Advanced Geo'' @ [CHR 0x0A] @ ''2 Smith, John G87654321'' @
      [CHR 0x0A] @ ''jsmith@pcc.edu'' @ [CHR 0x0A] @ ''12345 GEO 170 1 Intro to Geography''] =
   Inr [\<lparr> First_Name = ''John'', Last_Name = ''Smith'', G_Number = ''G87654321'',
           PCC_email_address = ''jsmith@pcc.edu'', Non_PCC_email = '''',
           Class = ''GEO 170'', CRN = ''12345'' \<rparr>]"
  by code_simp

section \<open>The student loop: email and cursor\<close>

lemma student_email_raises_iff:
  "student_email st lines idx = Inl e \<longleftrightarrow>
   e = IndexError \<and> idx + 1 < length lines \<and> email_domain st = [] \<and>
   strip (lines ! (idx + 1)) = []"
proof (cases "email_domain st = []")
  case False
  then show ?thesis by (simp add: student_email_nonempty_domain)
next
  case True
  show ?thesis
  proof (cases "idx + 1 < length lines")
    case False
    then show ?thesis by (simp add: student_email_def)
  next
    case lt: True
    show ?thesis
    proof (cases "strip (lines ! (idx + 1)) = []")
      case True
      have "split_ws [] = []" by (subst split_ws.simps) simp
      with True lt \<open>email_domain st = []\<close> show ?thesis
        by (cases e) (auto simp: student_email_def)
    next
      case False
      then obtain rest where
        "split_ws (strip (lines ! (idx + 1))) = first_token (lines ! (idx + 1)) # rest"
        using split_ws_strip by blast
      with False lt \<open>email_domain st = []\<close> show ?thesis
        by (simp add: student_email_def)
    qed
  qed
qed

lemma try_extract_raises_iff:
  "try_extract st current_class lines idx = Inl e \<longleftrightarrow>
   gnum_search (lines ! idx) \<noteq> None \<and> current_class \<noteq> None \<and>
   e = IndexError \<and> idx + 1 < length lines \<and> email_domain st = [] \<and>
   strip (lines ! (idx + 1)) = []"
  using student_email_raises_iff [of st lines idx e]
  by (auto simp: try_extract_def Let_def split: sum.splits prod.splits)

text \<open>
  C3. With an active context and a student number on the line at the cursor, the loop
  body is meant to add one record and move the cursor by 2 whatever the next line holds.
  When the configured email domain is the empty string and the next line is blank, the
  lookup \<open>email_line.split()[0]\<close> raises instead: no record is added and the walk of the
  whole document is aborted.
\<close>

theorem try_extract_empty_domain_blank_line:
  "try_extract (DEFAULT_SETTINGS\<lparr>email_domain := ''''\<rparr>)
     (Some \<lparr> ctx_CRN = ''12345'', ctx_Subject = ''GEO'', ctx_Course_Number = ''170'',
             ctx_Section = ''1'', ctx_Course_Name = ''Intro to Geography'' \<rparr>)
     [''1 Doe, Jane G12345678'', ''''] 0 = Inl IndexError \<and>
   main_records (DEFAULT_SETTINGS\<lparr>email_domain := ''''\<rparr>)
     [''12345 GEO 170 1 Intro to Geography'' @ [CHR 0x0A] @ ''1 Doe, Jane G12345678'' @
      [CHR 0x0A]] = Inl IndexError"
  by code_simp

text \<open>
  C9 (amended). Under an active context and a non-empty email domain, the record's email
  is the first whitespace-delimited token of the next line when that line exists and,
  stripped of surrounding whitespace, contains the domain; otherwise it is empty. For a
  domain that neither begins nor ends with whitespace, the stripped line contains the
  domain exactly when the line itself does.
\<close>

theorem email_from_next_line:
  assumes "idx < length lines" and "gnum_search (lines ! idx) = Some g"
    and "email_domain st \<noteq> []"
  shows "\<exists>r. try_extract st (Some c) lines idx = Inr (Some r, idx + 2) \<and>
     PCC_email_address r =
       (if idx + 1 < length lines \<and> sublist (email_domain st) (strip (lines ! (idx + 1)))
        then first_token (lines ! (idx + 1)) else '''') \<and>
     (\<not> isspace (hd (email_domain st)) \<and> \<not> isspace (last (email_domain st)) \<longrightarrow>
        PCC_email_address r =
          (if idx + 1 < length lines \<and> sublist (email_domain st) (lines ! (idx + 1))
           then first_token (lines ! (idx + 1)) else ''''))"
proof -
  let ?r = "\<lparr> First_Name = snd (student_names (lines ! idx) g),
                  Last_Name = fst (student_names (lines ! idx) g),
                  G_Number = g,
                  PCC_email_address =
                    (if idx + 1 < length lines \<and>
                        sublist (email_domain st) (strip (lines ! (idx + 1)))
                     then first_token (lines ! (idx + 1)) else ''''),
                  Non_PCC_email = '''',
                  Class = ctx_Subject c @ '' '' @ ctx_Course_Number c,
                  CRN = ctx_CRN c \<rparr>"
  have t: "try_extract st (Some c) lines idx = Inr (Some ?r, idx + 2)"
    using assms(2,3) by (rule try_extract_emit)
  have e: "PCC_email_address ?r =
       (if idx + 1 < length lines \<and> sublist (email_domain st) (strip (lines ! (idx + 1)))
        then first_token (lines ! (idx + 1)) else '''')" by simp
  have "\<not> isspace (hd (email_domain st)) \<and> \<not> isspace (last (email_domain st)) \<longrightarrow>
        PCC_email_address ?r =
          (if idx + 1 < length lines \<and> sublist (email_domain st) (lines ! (idx + 1))
           then first_token (lines ! (idx + 1)) else '''')"
    using assms(3) by (simp add: sublist_strip_iff)
  with t e show ?thesis by blast
qed

theorem email_from_next_line_witness:
  "\<exists>r. try_extract DEFAULT_SETTINGS
     (Some \<lparr> ctx_CRN = ''12345'', ctx_Subject = ''GEO'', ctx_Course_Number = ''170'',
             ctx_Section = ''1'', ctx_Course_Name = ''Intro to Geography'' \<rparr>)
     [''1 Doe, Jane G12345678'', ''  jdoe@pcc.edu  extra text''] 0 = Inr (Some r, 2) \<and>
     PCC_email_address r = ''jdoe@pcc.edu''"
proof -
  let ?lines = "[''1 Doe, Jane G12345678'', ''  jdoe@pcc.edu  extra text'']"
  let ?c = "\<lparr> ctx_CRN = ''12345'', ctx_Subject = ''GEO'', ctx_Course_Number = ''170'',
             ctx_Section = ''1'', ctx_Course_Name = ''Intro to Geography'' \<rparr>"
  have 1: "0 < length ?lines" by simp
  have 2: "gnum_search (?lines ! 0) = Some ''G12345678''" by code_simp
  have 3: "email_domain DEFAULT_SETTINGS \<noteq> []" by (simp add: DEFAULT_SETTINGS_def)
  have 4: "(if 0 + 1 < length ?lines \<and>
               sublist (email_domain DEFAULT_SETTINGS) (strip (?lines ! (0 + 1)))
            then first_token (?lines ! (0 + 1)) else '''') = ''jdoe@pcc.edu''"
    by code_simp
  have "\<exists>r. try_extract DEFAULT_SETTINGS (Some ?c) ?lines 0 = Inr (Some r, 0 + 2) \<and>
     PCC_email_address r =
       (if 0 + 1 < length ?lines \<and>
           sublist (email_domain DEFAULT_SETTINGS) (strip (?lines ! (0 + 1)))
        then first_token (?lines ! (0 + 1)) else '''') \<and>
     (\<not> isspace (hd (email_domain DEFAULT_SETTINGS)) \<and>
      \<not> isspace (last (email_domain DEFAULT_SETTINGS)) \<longrightarrow>
        PCC_email_address r =
          (if 0 + 1 < length ?lines \<and>
              sublist (email_domain DEFAULT_SETTINGS) (?lines ! (0 + 1))
           then first_token (?lines ! (0 + 1)) else ''''))"
    by (rule email_from_next_line [OF 1 2 3])
  then obtain r where
    a: "try_extract DEFAULT_SETTINGS (Some ?c) ?lines 0 = Inr (Some r, 0 + 2)" and
    b: "PCC_email_address r =
       (if 0 + 1 < length ?lines \<and>
           sublist (email_domain DEFAULT_SETTINGS) (strip (?lines ! (0 + 1)))
        then first_token (?lines ! (0 + 1)) else '''')"
    by (elim exE conjE)
  from b have b': "PCC_email_address r = ''jdoe@pcc.edu''" by (simp only: 4)
  have "(0::nat) + 2 = 2" by simp
  with a have a': "try_extract DEFAULT_SETTINGS (Some ?c) ?lines 0 = Inr (Some r, 2)"
    by (simp only:)
  from a' b' show ?thesis by (intro exI conjI)
qed

theorem email_domain_edge_counterexample:
  "sublist ''@pcc.edu '' ''jdoe@pcc.edu '' \<and>
   try_extract (DEFAULT_SETTINGS\<lparr>email_domain := ''@pcc.edu ''\<rparr>)
     (Some \<lparr> ctx_CRN = ''12345'', ctx_Subject = ''GEO'', ctx_Course_Number = ''170'',
             ctx_Section = ''1'', ctx_Course_Name = ''Intro to Geography'' \<rparr>)
     [''1 Doe, Jane G12345678'', ''jdoe@pcc.edu ''] 0 =
   Inr (Some \<lparr> First_Name = ''Jane'', Last_Name = ''Doe'', G_Number = ''G12345678'',
                PCC_email_address = '''', Non_PCC_email = '''',
                Class = ''GEO 170'', CRN = ''12345'' \<rparr>, 2) \<and>
   try_extract (DEFAULT_SETTINGS\<lparr>email_domain := ''''\<rparr>)
     (Some \<lparr> ctx_CRN = ''54321'', ctx_Subject = ''GEO'', ctx_Course_Number = ''221'',
             ctx_Section = ''2'', ctx_Course_Name = ''Advanced Geo'' \<rparr>)
     [''2 Smith, John G87654321'', ''   ''] 0 = Inl IndexError"
  by code_simp

section \<open>The end-to-end scenario\<close>

lemma split_char_nonempty: "split_char c s \<noteq> []"
  by (induction s) (auto split: list.splits)

lemma split_char_no_sep: "c \<notin> set s \<Longrightarrow> split_char c s = [s]"
  by (induction s) auto

lemma split_char_append_sep:
  "c \<notin> set a \<Longrightarrow> split_char c (a @ c # b) = a # split_char c b"
  by (induction a) auto

lemma header_line_accepted:
  assumes "course_match h = Some (g1, g2, g3, g4, g5)"
    and "allowed_courses st = None \<or> (\<exists>allowed. allowed_courses st = Some allowed \<and> g3 \<in> set allowed)"
  shows "header_line st current_class h =
     Some \<lparr> ctx_CRN = g1, ctx_Subject = g2, ctx_Course_Number = g3,
             ctx_Section = g4, ctx_Course_Name = strip g5 \<rparr>"
  using assms by (auto simp: header_line_def)

lemma student_rows_step_skip:
  assumes "idx < length lines" and "gnum_search (lines ! idx) = None \<or> current_class = None"
  shows "student_rows st current_class lines idx records =
         student_rows st current_class lines (idx + 1) records"
  using assms(1) try_extract_skip [OF assms(2), of st]
  by (subst student_rows.simps) simp

lemma student_rows_step_emit:
  assumes "idx < length lines" and "try_extract st current_class lines idx = Inr (Some r, idx')"
  shows "student_rows st current_class lines idx records =
         student_rows st current_class lines idx' (records @ [r])"
  using assms by (subst student_rows.simps) simp

lemma student_rows_done:
  "\<not> idx < length lines \<Longrightarrow> student_rows st current_class lines idx records = Inr records"
  by (subst student_rows.simps) simp

lemma scenario_page:
  assumes h: "header_line st cc0 hl = Some c"
    and s: "course_match sl = None" and l: "course_match l3 = None"
    and gh: "gnum_search hl = None" and gs: "gnum_search sl = Some g"
    and d: "email_domain st \<noteq> []"
  shows "student_rows st (Some c) [hl, sl, l3] 0 records =
     Inr (records @
       [\<lparr> First_Name = snd (student_names sl g), Last_Name = fst (student_names sl g),
          G_Number = g,
          PCC_email_address =
            (if sublist (email_domain st) (strip l3) then first_token l3 else ''''),
          Non_PCC_email = '''',
          Class = ctx_Subject c @ '' '' @ ctx_Course_Number c,
          CRN = ctx_CRN c \<rparr>]) \<and>
     header_pass st cc0 [hl, sl, l3] = Some c"
proof -
  let ?lines = "[hl, sl, l3]"
  let ?r = "\<lparr> First_Name = snd (student_names sl g), Last_Name = fst (student_names sl g),
          G_Number = g,
          PCC_email_address =
            (if sublist (email_domain st) (strip l3) then first_token l3 else ''''),
          Non_PCC_email = '''',
          Class = ctx_Subject c @ '' '' @ ctx_Course_Number c,
          CRN = ctx_CRN c \<rparr>"
  have hp: "header_pass st cc0 ?lines = Some c"
    using h s l by (simp add: header_line_no_header)
  have 0: "student_rows st (Some c) ?lines 0 records = student_rows st (Some c) ?lines (0 + 1) records"
    using gh by (intro student_rows_step_skip) simp_all
  have gs': "gnum_search (?lines ! 1) = Some g" using gs by simp
  have t: "try_extract st (Some c) ?lines 1 = Inr (Some ?r, 1 + 2)"
    using try_extract_emit [OF gs' d, of c] by simp
  have 1: "student_rows st (Some c) ?lines 1 records =
           student_rows st (Some c) ?lines (1 + 2) (records @ [?r])"
    using t by (intro student_rows_step_emit) simp_all
  have 2: "student_rows st (Some c) ?lines (1 + 2) (records @ [?r]) = Inr (records @ [?r])"
    by (intro student_rows_done) simp
  from 0 1 2 have "student_rows st (Some c) ?lines 0 records = Inr (records @ [?r])" by simp
  with hp show ?thesis by (intro conjI)
qed

text \<open>
  C2 (amended). The two-page scenario: page 1 has the lines \<open>12345 GEO 170 1 Intro to Geography\<close>,
  \<open>1 Doe, Jane G12345678\<close>, \<open>jdoe@pcc.edu\<close>; page 2 has \<open>54321 GEO 221 2 Advanced Geo\<close>,
  \<open>2 Smith, John G87654321\<close> and a third line \<open>l3\<close> that does not contain the email
  domain (and is one line that is not itself a class header). With the email domain
  \<open>@pcc.edu\<close> and an allow-list that is disabled or contains 170 and 221, \<open>main\<close> ends with
  exactly the two records of the scenario, in this order.
\<close>

theorem two_page_scenario:
  assumes "allowed_courses st = None \<or>
           (\<exists>allowed. allowed_courses st = Some allowed \<and>
              ''170'' \<in> set allowed \<and> ''221'' \<in> set allowed)"
    and "email_domain st = ''@pcc.edu''"
    and "\<not> sublist ''@pcc.edu'' l3"
    and "CHR 0x0A \<notin> set l3" and "course_match l3 = None"
  shows "main_records st
     [''12345 GEO 170 1 Intro to Geography'' @ [CHR 0x0A] @ ''1 Doe, Jane G12345678'' @
        [CHR 0x0A] @ ''jdoe@pcc.edu'',
      ''54321 GEO 221 2 Advanced Geo'' @ [CHR 0x0A] @ ''2 Smith, John G87654321'' @
        [CHR 0x0A] @ l3] =
     Inr [\<lparr> First_Name = ''Jane'', Last_Name = ''Doe'', G_Number = ''G12345678'',
             PCC_email_address = ''jdoe@pcc.edu'', Non_PCC_email = '''',
             Class = ''GEO 170'', CRN = ''12345'' \<rparr>,
          \<lparr> First_Name = ''John'', Last_Name = ''Smith'', G_Number = ''G87654321'',
             PCC_email_address = '''', Non_PCC_email = '''',
             Class = ''GEO 221'', CRN = ''54321'' \<rparr>]"
proof -
  let ?h1 = "''12345 GEO 170 1 Intro to Geography''"
  let ?s1 = "''1 Doe, Jane G12345678''"
  let ?e1 = "''jdoe@pcc.edu''"
  let ?h2 = "''54321 GEO 221 2 Advanced Geo''"
  let ?s2 = "''2 Smith, John G87654321''"
  let ?p1 = "?h1 @ [CHR 0x0A] @ ?s1 @ [CHR 0x0A] @ ?e1"
  let ?p2 = "?h2 @ [CHR 0x0A] @ ?s2 @ [CHR 0x0A] @ l3"
  let ?c1 = "\<lparr> ctx_CRN = ''12345'', ctx_Subject = ''GEO'', ctx_Course_Number = ''170'',
               ctx_Section = ''1'', ctx_Course_Name = ''Intro to Geography'' \<rparr>"
  let ?c2 = "\<lparr> ctx_CRN = ''54321'', ctx_Subject = ''GEO'', ctx_Course_Number = ''221'',
               ctx_Section = ''2'', ctx_Course_Name = ''Advanced Geo'' \<rparr>"
  let ?r1 = "\<lparr> First_Name = ''Jane'', Last_Name = ''Doe'', G_Number = ''G12345678'',
             PCC_email_address = ''jdoe@pcc.edu'', Non_PCC_email = '''',
             Class = ''GEO 170'', CRN = ''12345'' \<rparr>"
  let ?r2 = "\<lparr> First_Name = ''John'', Last_Name = ''Smith'', G_Number = ''G87654321'',
             PCC_email_address = '''', Non_PCC_email = '''',
             Class = ''GEO 221'', CRN = ''54321'' \<rparr>"
  have d: "email_domain st \<noteq> []" using assms(2) by simp
  \<comment> \<open>the lines of the two pages\<close>
  have l1: "split_char (CHR 0x0A) ?p1 = [?h1, ?s1, ?e1]" by code_simp
  have "split_char (CHR 0x0A) (?h2 @ CHR 0x0A # ?s2 @ CHR 0x0A # l3) =
        ?h2 # split_char (CHR 0x0A) (?s2 @ CHR 0x0A # l3)"
    by (rule split_char_append_sep) simp
  also have "split_char (CHR 0x0A) (?s2 @ CHR 0x0A # l3) = ?s2 # split_char (CHR 0x0A) l3"
    by (rule split_char_append_sep) simp
  also have "split_char (CHR 0x0A) l3 = [l3]" using assms(4) by (rule split_char_no_sep)
  finally have l2: "split_char (CHR 0x0A) ?p2 = [?h2, ?s2, l3]" by simp
  \<comment> \<open>what the patterns find on the five given lines\<close>
  have m1: "course_match ?h1 = Some (''12345'', ''GEO'', ''170'', ''1'', ''Intro to Geography'')"
    by code_simp
  have m2: "course_match ?h2 = Some (''54321'', ''GEO'', ''221'', ''2'', ''Advanced Geo'')"
    by code_simp
  have n1: "course_match ?s1 = None" by code_simp
  have n2: "course_match ?e1 = None" by code_simp
  have n3: "course_match ?s2 = None" by code_simp
  have g1: "gnum_search ?h1 = None" by code_simp
  have g2: "gnum_search ?s1 = Some ''G12345678''" by code_simp
  have g3: "gnum_search ?h2 = None" by code_simp
  have g4: "gnum_search ?s2 = Some ''G87654321''" by code_simp
  have k1: "strip ''Intro to Geography'' = ''Intro to Geography''" by code_simp
  have k2: "strip ''Advanced Geo'' = ''Advanced Geo''" by code_simp
  have a1: "allowed_courses st = None \<or>
            (\<exists>allowed. allowed_courses st = Some allowed \<and> ''170'' \<in> set allowed)"
    using assms(1) by blast
  have a2: "allowed_courses st = None \<or>
            (\<exists>allowed. allowed_courses st = Some allowed \<and> ''221'' \<in> set allowed)"
    using assms(1) by blast
  have h1: "header_line st None ?h1 = Some ?c1"
    using header_line_accepted [OF m1 a1, of None] by (simp only: k1)
  have sn1: "student_names ?s1 ''G12345678'' = (''Doe'', ''Jane'')" by code_simp
  have sn2: "student_names ?s2 ''G87654321'' = (''Smith'', ''John'')" by code_simp
  have em1: "(if sublist ''@pcc.edu'' (strip ?e1) then first_token ?e1 else '''') = ?e1"
    by code_simp
  have "\<not> sublist ''@pcc.edu'' (strip l3)" using assms(3) sublist_strip_imp by blast
  then have em2: "(if sublist ''@pcc.edu'' (strip l3) then first_token l3 else '''') = ''''"
    by simp
  \<comment> \<open>page 1\<close>
  have sp1: "student_rows st (Some ?c1) [?h1, ?s1, ?e1] 0 [] =
               Inr [?r1] \<and>
             header_pass st None [?h1, ?s1, ?e1] = Some ?c1"
    using scenario_page [OF h1 n1 n2 g1 g2 d, of "[]"]
    by (simp only: assms(2) sn1 em1 fst_conv snd_conv append.simps class_ctx.select_convs)
  from sp1 have p1:
    "student_rows st (Some ?c1) [?h1, ?s1, ?e1] 0 [] = Inr [?r1]"
    by (rule conjunct1)
  from sp1 have c1: "header_pass st None [?h1, ?s1, ?e1] = Some ?c1" by (rule conjunct2)
  have page1: "parse_page st (None, []) ?p1 = Inr (Some ?c1, [?r1])"
    unfolding parse_page_def Let_def l1 fst_conv snd_conv c1 p1 by simp
  \<comment> \<open>page 2\<close>
  have h2: "header_line st (Some ?c1) ?h2 = Some ?c2"
    using header_line_accepted [OF m2 a2, of "Some ?c1"] by (simp only: k2)
  have sp2: "student_rows st (Some ?c2) [?h2, ?s2, l3] 0 [?r1] =
               Inr [?r1, ?r2] \<and>
             header_pass st (Some ?c1) [?h2, ?s2, l3] = Some ?c2"
    using scenario_page [OF h2 n3 assms(5) g3 g4 d, of "[?r1]"]
    by (simp only: assms(2) sn2 em2 fst_conv snd_conv append.simps class_ctx.select_convs)
  from sp2 have p2:
    "student_rows st (Some ?c2) [?h2, ?s2, l3] 0 [?r1] =
       Inr [?r1, ?r2]"
    by (rule conjunct1)
  from sp2 have c2: "header_pass st (Some ?c1) [?h2, ?s2, l3] = Some ?c2" by (rule conjunct2)
  have page2: "parse_page st (Some ?c1, [?r1]) ?p2 = Inr (Some ?c2, [?r1, ?r2])"
    unfolding parse_page_def Let_def l2 fst_conv snd_conv c2 p2 by simp
  have pp: "parse_pages st (None, []) [?p1, ?p2] = Inr (Some ?c2, [?r1, ?r2])"
    by (simp only: parse_pages.simps page1 page2 sum.case)
  show ?thesis unfolding main_records_def pp by simp
qed

theorem two_page_scenario_witness:
  "main_records DEFAULT_SETTINGS
     [''12345 GEO 170 1 Intro to Geography'' @ [CHR 0x0A] @ ''1 Doe, Jane G12345678'' @
        [CHR 0x0A] @ ''jdoe@pcc.edu'',
      ''54321 GEO 221 2 Advanced Geo'' @ [CHR 0x0A] @ ''2 Smith, John G87654321'' @
        [CHR 0x0A] @ ''Page 2 of 2''] =
     Inr [\<lparr> First_Name = ''Jane'', Last_Name = ''Doe'', G_Number = ''G12345678'',
             PCC_email_address = ''jdoe@pcc.edu'', Non_PCC_email = '''',
             Class = ''GEO 170'', CRN = ''12345'' \<rparr>,
          \<lparr> First_Name = ''John'', Last_Name = ''Smith'', G_Number = ''G87654321'',
             PCC_email_address = '''', Non_PCC_email = '''',
             Class = ''GEO 221'', CRN = ''54321'' \<rparr>]"
proof (rule two_page_scenario)
  show "allowed_courses DEFAULT_SETTINGS = None \<or>
        (\<exists>allowed. allowed_courses DEFAULT_SETTINGS = Some allowed \<and>
           ''170'' \<in> set allowed \<and> ''221'' \<in> set allowed)"
    by (simp add: DEFAULT_SETTINGS_def)
  show "email_domain DEFAULT_SETTINGS = ''@pcc.edu''" by (simp add: DEFAULT_SETTINGS_def)
  show "\<not> sublist ''@pcc.edu'' ''Page 2 of 2''" by code_simp
  show "CHR 0x0A \<notin> set ''Page 2 of 2''" by simp
  show "course_match ''Page 2 of 2'' = None" by code_simp
qed

theorem two_page_scenario_header_line_counterexample:
  "\<not> sublist ''@pcc.edu'' ''99999 GEO 170 3 Field Methods'' \<and>
   main_records DEFAULT_SETTINGS
     [''12345 GEO 170 1 Intro to Geography'' @ [CHR 0x0A] @ ''1 Doe, Jane G12345678'' @
        [CHR 0x0A] @ ''jdoe@pcc.edu'',
      ''54321 GEO 221 2 Advanced Geo'' @ [CHR 0x0A] @ ''2 Smith, John G87654321'' @
        [CHR 0x0A] @ ''99999 GEO 170 3 Field Methods''] =
     Inr [\<lparr> First_Name = ''Jane'', Last_Name = ''Doe'', G_Number = ''G12345678'',
             PCC_email_address = ''jdoe@pcc.edu'', Non_PCC_email = '''',
             Class = ''GEO 170'', CRN = ''12345'' \<rparr>,
          \<lparr> First_Name = ''John'', Last_Name = ''Smith'', G_Number = ''G87654321'',
             PCC_email_address = '''', Non_PCC_email = '''',
             Class = ''GEO 170'', CRN = ''99999'' \<rparr>]"
  by code_simp

section \<open>The student loop: names\<close>

lemma gnum_at_nonempty: "gnum_at s = Some g \<Longrightarrow> g \<noteq> []"
  by (auto simp: gnum_at_def split: list.splits if_splits)

lemma re_search_gnum_nonempty:
  "re_search (\<lambda>prev. gnum_at) p line = Some g \<Longrightarrow> g \<noteq> []"
proof (induction line arbitrary: p)
  case Nil
  then show ?case by (simp add: gnum_at_nonempty)
next
  case (Cons x line)
  show ?case
  proof (cases "gnum_at (x # line)")
    case None
    with Cons.prems have "re_search (\<lambda>prev. gnum_at) (Some x) line = Some g" by simp
    then show ?thesis by (rule Cons.IH)
  next
    case (Some a)
    with Cons.prems have "a = g" by simp
    with Some show ?thesis by (simp add: gnum_at_nonempty)
  qed
qed

lemma gnum_search_nonempty: "gnum_search line = Some g \<Longrightarrow> g \<noteq> []"
  unfolding gnum_search_def by (rule re_search_gnum_nonempty)

lemma prefix_append_short:
  assumes "prefix g (a @ b)" and "length g \<le> length a"
  shows "prefix g a"
proof -
  from assms(1) have "prefix g a \<or> (\<exists>us. g = a @ us \<and> prefix us b)"
    by (simp add: prefix_append)
  then show ?thesis
  proof
    assume "prefix g a" then show ?thesis .
  next
    assume "\<exists>us. g = a @ us \<and> prefix us b"
    then obtain us where us: "g = a @ us" by blast
    with assms(2) have "us = []" by simp
    with us show ?thesis by simp
  qed
qed

lemma before_first_first_occurrence:
  assumes "g \<noteq> []" and "\<not> sublist g (np @ butlast g)"
  shows "before_first g (np @ g @ post) = np"
  using assms(2)
proof (induction np)
  case Nil
  from assms(1) obtain c cs where "g = c # cs" by (cases g) auto
  then show ?case by simp
next
  case (Cons x np)
  have "\<not> prefix g ((x # np) @ g @ post)"
  proof
    assume p: "prefix g ((x # np) @ g @ post)"
    have "g @ post = butlast g @ last g # post"
      using assms(1) by (metis append.assoc append_Cons append_Nil append_butlast_last_id)
    then have eq: "(x # np) @ g @ post = ((x # np) @ butlast g) @ (last g # post)"
      by (simp only: append_assoc)
    have "prefix g (((x # np) @ butlast g) @ (last g # post))"
      using p unfolding eq .
    moreover have "length g \<le> length ((x # np) @ butlast g)" by simp
    ultimately have "prefix g ((x # np) @ butlast g)" by (rule prefix_append_short)
    then have "sublist g ((x # np) @ butlast g)" by (rule prefix_imp_sublist)
    with Cons.prems show False by simp
  qed
  moreover have "\<not> sublist g (np @ butlast g)"
    using Cons.prems by (simp add: sublist_Cons_right)
  ultimately show ?case using Cons.IH by simp
qed

lemma split_char_head:
  "split_char c s = p # ps \<Longrightarrow>
   c \<notin> set p \<and> (ps = [] \<longrightarrow> s = p) \<and>
   (ps \<noteq> [] \<longrightarrow> (\<exists>rest. s = p @ c # rest \<and> split_char c rest = ps))"
proof (induction s arbitrary: p ps)
  case Nil
  then show ?case by auto
next
  case (Cons x s)
  show ?case
  proof (cases "x = c")
    case True
    with Cons.prems have "p = []" "ps = split_char c s" by auto
    with True show ?thesis by (simp add: split_char_nonempty)
  next
    case False
    obtain q qs where q: "split_char c s = q # qs"
      using split_char_nonempty [of c s] by (cases "split_char c s") auto
    with False Cons.prems have p: "p = x # q" "ps = qs" by auto
    from Cons.IH [OF q] False p show ?thesis by auto
  qed
qed

lemma split_char_two:
  assumes "c \<notin> set l" and "c \<notin> set f" and "tail = [] \<or> hd tail = c"
  shows "\<exists>others. split_char c (l @ c # f @ tail) = l # f # others"
proof -
  have 1: "split_char c (l @ c # f @ tail) = l # split_char c (f @ tail)"
    using assms(1) by (rule split_char_append_sep)
  show ?thesis
  proof (cases tail)
    case Nil
    with assms(2) 1 show ?thesis by (simp add: split_char_no_sep)
  next
    case (Cons t ts)
    with assms(3) have "tail = c # ts" by simp
    with assms(2) 1 show ?thesis by (simp add: split_char_append_sep)
  qed
qed

lemma split_char_two_conv:
  assumes "split_char c s = l # f # others"
  shows "\<exists>tail. s = l @ c # f @ tail \<and> c \<notin> set l \<and> c \<notin> set f \<and>
           (tail = [] \<or> hd tail = c)"
proof -
  from split_char_head [OF assms] obtain rest where
    l: "c \<notin> set l" and s: "s = l @ c # rest" and r: "split_char c rest = f # others"
    by auto
  from split_char_head [OF r] have f: "c \<notin> set f"
    and e: "others = [] \<longrightarrow> rest = f"
    and n: "others \<noteq> [] \<longrightarrow> (\<exists>t. rest = f @ c # t)" by auto
  show ?thesis
  proof (cases "others = []")
    case True
    with e s have "s = l @ c # f @ []" by simp
    with l f show ?thesis by blast
  next
    case False
    with n obtain t where "rest = f @ c # t" by blast
    with s have "s = l @ c # f @ (c # t)" by simp
    moreover have "hd (c # t) = c" by simp
    ultimately show ?thesis using l f by blast
  qed
qed
lemma split_ws1_two:
  assumes "list_all isspace ws0" and "tok \<noteq> []" and "list_all (\<lambda>c. \<not> isspace c) tok"
    and "ws1 \<noteq> []" and "list_all isspace ws1" and "rest \<noteq> []" and "\<not> isspace (hd rest)"
  shows "split_ws1 (ws0 @ tok @ ws1 @ rest) = [tok, rest]"
proof -
  have t0: "\<not> isspace (hd tok)" using assms(2,3) by (cases tok) auto
  have w1: "isspace (hd ws1)" using assms(4,5) by (cases ws1) auto
  have 1: "dropWhile isspace (ws0 @ tok @ ws1 @ rest) = tok @ ws1 @ rest"
    using assms(1,2) t0 by (cases tok) (auto simp: list_all_iff dropWhile_append3)
  have 2: "takeWhile (\<lambda>c. \<not> isspace c) (tok @ ws1 @ rest) = tok"
    using assms(3,4) w1 by (cases ws1) (auto simp: list_all_iff takeWhile_tail)
  have 3: "dropWhile (\<lambda>c. \<not> isspace c) (tok @ ws1 @ rest) = ws1 @ rest"
    using assms(3,4) w1 by (cases ws1) (auto simp: list_all_iff dropWhile_append3)
  have 4: "dropWhile isspace (ws1 @ rest) = rest"
    using assms(5,6,7) by (cases rest) (auto simp: list_all_iff dropWhile_append3)
  show ?thesis
    using assms(2,6) by (simp add: split_ws1_def Let_def 1 2 3 4)
qed

lemma takeWhile_nonempty: "xs \<noteq> [] \<Longrightarrow> P (hd xs) \<Longrightarrow> takeWhile P xs \<noteq> []"
  by (cases xs) auto

lemma split_ws1_blank: "dropWhile isspace s = [] \<Longrightarrow> split_ws1 s = []"
  by (simp only: split_ws1_def Let_def simp_thms if_True if_False)

lemma split_ws1_one_token:
  "dropWhile isspace s \<noteq> [] \<Longrightarrow>
   dropWhile isspace (dropWhile (\<lambda>c. \<not> isspace c) (dropWhile isspace s)) = [] \<Longrightarrow>
   split_ws1 s = [takeWhile (\<lambda>c. \<not> isspace c) (dropWhile isspace s)]"
  by (simp only: split_ws1_def Let_def simp_thms if_True if_False)

lemma split_ws1_token_rest:
  "dropWhile isspace s \<noteq> [] \<Longrightarrow>
   dropWhile isspace (dropWhile (\<lambda>c. \<not> isspace c) (dropWhile isspace s)) \<noteq> [] \<Longrightarrow>
   split_ws1 s = [takeWhile (\<lambda>c. \<not> isspace c) (dropWhile isspace s),
     dropWhile isspace (dropWhile (\<lambda>c. \<not> isspace c) (dropWhile isspace s))]"
  by (simp only: split_ws1_def Let_def simp_thms if_True if_False)

lemma split_ws1_two_conv:
  assumes "split_ws1 s = [tok, rest]"
  shows "\<exists>ws0 ws1. s = ws0 @ tok @ ws1 @ rest \<and> list_all isspace ws0 \<and> tok \<noteq> [] \<and>
           list_all (\<lambda>c. \<not> isspace c) tok \<and> ws1 \<noteq> [] \<and> list_all isspace ws1 \<and>
           rest \<noteq> [] \<and> \<not> isspace (hd rest)"
proof -
  let ?s1 = "dropWhile isspace s"
  let ?d = "dropWhile (\<lambda>c. \<not> isspace c) ?s1"
  have s1: "?s1 \<noteq> []"
  proof
    assume "?s1 = []"
    then have "split_ws1 s = []" by (rule split_ws1_blank)
    with assms show False by simp
  qed
  have rne0: "dropWhile isspace ?d \<noteq> []"
  proof
    assume "dropWhile isspace ?d = []"
    with s1 have "split_ws1 s = [takeWhile (\<lambda>c. \<not> isspace c) ?s1]"
      by (rule split_ws1_one_token)
    with assms show False by simp
  qed
  from s1 rne0 have "split_ws1 s = [takeWhile (\<lambda>c. \<not> isspace c) ?s1, dropWhile isspace ?d]"
    by (rule split_ws1_token_rest)
  with assms have "[tok, rest] = [takeWhile (\<lambda>c. \<not> isspace c) ?s1, dropWhile isspace ?d]"
    by (simp only:)
  then have tok: "tok = takeWhile (\<lambda>c. \<not> isspace c) ?s1"
    and rest: "rest = dropWhile isspace ?d" by (simp_all only: list.inject)
  have rne: "rest \<noteq> []" using rne0 unfolding rest .
  have h1: "\<not> isspace (hd ?s1)" using s1 by (rule hd_dropWhile)
  have tne: "tok \<noteq> []" using s1 h1 unfolding tok by (rule takeWhile_nonempty)
  have dne: "?d \<noteq> []"
  proof
    assume "?d = []"
    then have "dropWhile isspace ?d = []" by (simp only: dropWhile.simps)
    with rne0 show False ..
  qed
  have "\<not> \<not> isspace (hd ?d)" using dne by (rule hd_dropWhile)
  then have "isspace (hd ?d)" by (rule notnotD)
  with dne have wne: "takeWhile isspace ?d \<noteq> []" by (rule takeWhile_nonempty)
  have hr: "\<not> isspace (hd rest)" using rne0 unfolding rest by (rule hd_dropWhile)
  have w0: "list_all isspace (takeWhile isspace s)"
    by (auto simp: list_all_iff dest: set_takeWhileD)
  have w1: "list_all isspace (takeWhile isspace ?d)"
    by (auto simp: list_all_iff dest: set_takeWhileD)
  have tk: "list_all (\<lambda>c. \<not> isspace c) tok"
    unfolding tok by (auto simp: list_all_iff dest: set_takeWhileD)
  have "takeWhile isspace s @ tok @ takeWhile isspace ?d @ rest = s"
    unfolding tok rest by (simp only: takeWhile_dropWhile_id)
  then have "s = takeWhile isspace s @ tok @ takeWhile isspace ?d @ rest" by (rule sym)
  with w0 tne tk wne w1 rne hr show ?thesis
    by (intro exI [of _ "takeWhile isspace s"] exI [of _ "takeWhile isspace ?d"] conjI)
qed

lemma comma_not_space: "\<not> isspace (CHR '','')"
  by (simp add: isspace_def ord_def)

lemma student_names_cases:
  "student_names line g = ('''', '''') \<or>
   (\<exists>tok rest l f others.
      split_ws1 (before_first g line) = [tok, rest] \<and>
      split_char (CHR '','') rest = l # f # others \<and>
      student_names line g = (strip l, strip f))"
  unfolding student_names_def Let_def
  by (cases "split_ws1 (before_first g line)" rule: list.exhaust;
      simp split: list.splits)

lemma student_names_region:
  assumes "name_region np lastp firstp" and "g \<noteq> []" and "\<not> sublist g (np @ butlast g)"
  shows "student_names (np @ g @ post) g = (strip lastp, strip firstp)"
proof -
  have bf: "before_first g (np @ g @ post) = np"
    using assms(2,3) by (rule before_first_first_occurrence)
  from assms(1) obtain ws0 tok ws1 tail where
    np: "np = ws0 @ tok @ ws1 @ lastp @ [CHR '',''] @ firstp @ tail" and
    w0: "list_all isspace ws0" and t: "tok \<noteq> []" "list_all (\<lambda>c. \<not> isspace c) tok" and
    w1: "ws1 \<noteq> []" "list_all isspace ws1" and
    lp: "lastp = [] \<or> \<not> isspace (hd lastp)" and
    cl: "CHR '','' \<notin> set lastp" and cf: "CHR '','' \<notin> set firstp" and
    tl: "tail = [] \<or> hd tail = CHR '',''"
    unfolding name_region_def by blast
  let ?rest = "lastp @ CHR '','' # firstp @ tail"
  have r1: "?rest \<noteq> []" by simp
  have r2: "\<not> isspace (hd ?rest)"
    using lp comma_not_space by (cases lastp) auto
  have "split_ws1 (ws0 @ tok @ ws1 @ ?rest) = [tok, ?rest]"
    using w0 t w1 r1 r2 by (rule split_ws1_two)
  then have sw: "split_ws1 np = [tok, ?rest]" using np by simp
  obtain others where sc: "split_char (CHR '','') ?rest = lastp # firstp # others"
    using split_char_two [OF cl cf tl] by blast
  show ?thesis
    unfolding student_names_def Let_def bf sw by (simp add: sc)
qed

lemma student_names_no_region:
  assumes "\<forall>lastp firstp. \<not> name_region np lastp firstp"
    and "g \<noteq> []" and "\<not> sublist g (np @ butlast g)"
  shows "student_names (np @ g @ post) g = ('''', '''')"
proof (rule ccontr)
  assume n: "student_names (np @ g @ post) g \<noteq> ('''', '''')"
  have bf: "before_first g (np @ g @ post) = np"
    using assms(2,3) by (rule before_first_first_occurrence)
  from student_names_cases [of "np @ g @ post" g] n obtain tok rest l f others where
    sw: "split_ws1 np = [tok, rest]" and sc: "split_char (CHR '','') rest = l # f # others"
    unfolding bf by blast
  from split_ws1_two_conv [OF sw] obtain ws0 ws1 where
    np: "np = ws0 @ tok @ ws1 @ rest" and
    w: "list_all isspace ws0" "tok \<noteq> []" "list_all (\<lambda>c. \<not> isspace c) tok"
       "ws1 \<noteq> []" "list_all isspace ws1" and
    r: "rest \<noteq> []" "\<not> isspace (hd rest)" by blast
  from split_char_two_conv [OF sc] obtain tail where
    rest: "rest = l @ CHR '','' # f @ tail" and
    c: "CHR '','' \<notin> set l" "CHR '','' \<notin> set f" "tail = [] \<or> hd tail = CHR '',''"
    by blast
  have lp: "l = [] \<or> \<not> isspace (hd l)" using r(2) rest by (cases l) auto
  have "np = ws0 @ tok @ ws1 @ l @ [CHR '',''] @ f @ tail" using np rest by simp
  with w lp c have "name_region np l f" unfolding name_region_def by blast
  with assms(1) show False by blast
qed
text \<open>
  C4 (amended). For a student line processed under an active context (and a non-empty email
  domain), the name region is the text before the student number. When the region has a
  leading token, whitespace, and a remainder with a comma, the last name is the remainder's
  text before its first comma and the first name is the text between that comma and the
  next comma (or the end of the region), both stripped. In every other case (no second
  token, or no comma in the remainder) both names are empty. In both cases the record is
  emitted: the name lookup never raises.
\<close>

theorem names_from_name_region:
  assumes "idx < length lines" and "gnum_search (lines ! idx) = Some g"
    and "lines ! idx = name_part @ g @ post" and "\<not> sublist g (name_part @ butlast g)"
    and "email_domain st \<noteq> []"
  shows "\<exists>r. try_extract st (Some c) lines idx = Inr (Some r, idx + 2) \<and>
     (\<forall>lastp firstp. name_region name_part lastp firstp \<longrightarrow>
        Last_Name r = strip lastp \<and> First_Name r = strip firstp) \<and>
     ((\<forall>lastp firstp. \<not> name_region name_part lastp firstp) \<longrightarrow>
        Last_Name r = '''' \<and> First_Name r = '''')"
proof -
  let ?r = "\<lparr> First_Name = snd (student_names (lines ! idx) g),
                  Last_Name = fst (student_names (lines ! idx) g),
                  G_Number = g,
                  PCC_email_address =
                    (if idx + 1 < length lines \<and>
                        sublist (email_domain st) (strip (lines ! (idx + 1)))
                     then first_token (lines ! (idx + 1)) else ''''),
                  Non_PCC_email = '''',
                  Class = ctx_Subject c @ '' '' @ ctx_Course_Number c,
                  CRN = ctx_CRN c \<rparr>"
  have g: "g \<noteq> []" using assms(2) by (rule gnum_search_nonempty)
  have t: "try_extract st (Some c) lines idx = Inr (Some ?r, idx + 2)"
    using assms(2,5) by (rule try_extract_emit)
  have a: "\<forall>lastp firstp. name_region name_part lastp firstp \<longrightarrow>
        Last_Name ?r = strip lastp \<and> First_Name ?r = strip firstp"
  proof (intro allI impI)
    fix lastp firstp
    assume "name_region name_part lastp firstp"
    then have "student_names (name_part @ g @ post) g = (strip lastp, strip firstp)"
      using g assms(4) by (rule student_names_region)
    then show "Last_Name ?r = strip lastp \<and> First_Name ?r = strip firstp"
      by (simp add: assms(3))
  qed
  have b: "(\<forall>lastp firstp. \<not> name_region name_part lastp firstp) \<longrightarrow>
        Last_Name ?r = '''' \<and> First_Name ?r = ''''"
  proof
    assume "\<forall>lastp firstp. \<not> name_region name_part lastp firstp"
    then have "student_names (name_part @ g @ post) g = ('''', '''')"
      using g assms(4) by (rule student_names_no_region)
    then show "Last_Name ?r = '''' \<and> First_Name ?r = ''''"
      by (simp add: assms(3))
  qed
  from t a b show ?thesis by (intro exI [of _ ?r] conjI)
qed

theorem names_from_name_region_witness:
  "\<exists>r. try_extract DEFAULT_SETTINGS
     (Some \<lparr> ctx_CRN = ''12345'', ctx_Subject = ''GEO'', ctx_Course_Number = ''170'',
             ctx_Section = ''1'', ctx_Course_Name = ''Intro to Geography'' \<rparr>)
     [''1 Doe, Jane G12345678''] 0 = Inr (Some r, 2) \<and>
     Last_Name r = ''Doe'' \<and> First_Name r = ''Jane''"
proof -
  let ?lines = "[''1 Doe, Jane G12345678'']"
  let ?c = "\<lparr> ctx_CRN = ''12345'', ctx_Subject = ''GEO'', ctx_Course_Number = ''170'',
             ctx_Section = ''1'', ctx_Course_Name = ''Intro to Geography'' \<rparr>"
  have 1: "0 < length ?lines" by simp
  have 2: "gnum_search (?lines ! 0) = Some ''G12345678''" by code_simp
  have 3: "?lines ! 0 = ''1 Doe, Jane '' @ ''G12345678'' @ ''''" by simp
  have 4: "\<not> sublist ''G12345678'' (''1 Doe, Jane '' @ butlast ''G12345678'')" by code_simp
  have 5: "email_domain DEFAULT_SETTINGS \<noteq> []" by (simp add: DEFAULT_SETTINGS_def)
  have "''1 Doe, Jane '' = '''' @ ''1'' @ '' '' @ ''Doe'' @ [CHR '',''] @ '' Jane '' @ '''' \<and>
        list_all isspace '''' \<and> ''1'' \<noteq> [] \<and> list_all (\<lambda>c. \<not> isspace c) ''1'' \<and>
        '' '' \<noteq> [] \<and> list_all isspace '' '' \<and>
        (''Doe'' = [] \<or> \<not> isspace (hd ''Doe'')) \<and>
        CHR '','' \<notin> set ''Doe'' \<and> CHR '','' \<notin> set '' Jane '' \<and>
        ('''' = [] \<or> hd '''' = CHR '','')"
    by (simp add: isspace_def ord_def)
  then have 6: "name_region ''1 Doe, Jane '' ''Doe'' '' Jane ''"
    unfolding name_region_def by (intro exI)
  have 7: "strip ''Doe'' = ''Doe''" "strip '' Jane '' = ''Jane''" by code_simp+
  from names_from_name_region [OF 1 2 3 4 5, of ?c] obtain r where
    a: "try_extract DEFAULT_SETTINGS (Some ?c) ?lines 0 = Inr (Some r, 0 + 2)" and
    b: "\<forall>lastp firstp. name_region ''1 Doe, Jane '' lastp firstp \<longrightarrow>
        Last_Name r = strip lastp \<and> First_Name r = strip firstp"
    by (elim exE conjE)
  from b 6 have "Last_Name r = strip ''Doe'' \<and> First_Name r = strip '' Jane ''"
    by (elim allE impE)
  then have c: "Last_Name r = ''Doe'' \<and> First_Name r = ''Jane''" by (simp only: 7)
  have "(0::nat) + 2 = 2" by simp
  with a have "try_extract DEFAULT_SETTINGS (Some ?c) ?lines 0 = Inr (Some r, 2)"
    by (simp only:)
  with c show ?thesis by (intro exI conjI) (erule conjunct1 conjunct2 | assumption)+
qed

theorem names_second_comma_counterexample:
  "try_extract DEFAULT_SETTINGS
     (Some \<lparr> ctx_CRN = ''12345'', ctx_Subject = ''GEO'', ctx_Course_Number = ''170'',
             ctx_Section = ''1'', ctx_Course_Name = ''Intro to Geography'' \<rparr>)
     [''1 Doe, Jane, Jr G12345678''] 0 =
   Inr (Some \<lparr> First_Name = ''Jane'', Last_Name = ''Doe'', G_Number = ''G12345678'',
                PCC_email_address = '''', Non_PCC_email = '''',
                Class = ''GEO 170'', CRN = ''12345'' \<rparr>, 2) \<and>
   strip (drop (Suc (length (takeWhile (\<lambda>c. c \<noteq> CHR '','') ''Doe, Jane, Jr '')))
            ''Doe, Jane, Jr '') = ''Jane, Jr''"
  by code_simp

section \<open>Properties of the pattern search\<close>

lemma re_search_None:
  "(\<And>pre rest. s = pre @ rest \<Longrightarrow> m (if pre = [] then prev else Some (last pre)) rest = None)
   \<Longrightarrow> re_search m prev s = None"
proof (induction s arbitrary: prev)
  case Nil
  from Nil [of "[]" "[]"] show ?case by simp
next
  case (Cons c cs)
  from Cons.prems [of "[]" "c # cs"] have 0: "m prev (c # cs) = None" by simp
  have "re_search m (Some c) cs = None"
  proof (rule Cons.IH)
    fix pre rest
    assume "cs = pre @ rest"
    then have "c # cs = (c # pre) @ rest" by simp
    from Cons.prems [OF this]
    show "m (if pre = [] then Some c else Some (last pre)) rest = None"
      by (cases "pre = []") simp_all
  qed
  with 0 show ?case by simp
qed

lemma re_search_first:
  assumes "s = pre @ rest"
    and "m (if pre = [] then prev else Some (last pre)) rest = Some r"
    and "\<And>pre' rest'. s = pre' @ rest' \<Longrightarrow> length pre' < length pre \<Longrightarrow>
           m (if pre' = [] then prev else Some (last pre')) rest' = None"
  shows "re_search m prev s = Some r"
  using assms
proof (induction pre arbitrary: s prev)
  case Nil
  then show ?case by (cases rest) simp_all
next
  case (Cons c pre)
  from Cons.prems(1) have s: "s = c # (pre @ rest)" by simp
  from Cons.prems(3) [of "[]" s] have 0: "m prev (c # pre @ rest) = None" using s by simp
  have "re_search m (Some c) (pre @ rest) = Some r"
  proof (rule Cons.IH [OF refl])
    show "m (if pre = [] then Some c else Some (last pre)) rest = Some r"
      using Cons.prems(2) by (cases "pre = []") simp_all
  next
    fix pre' rest'
    assume e: "pre @ rest = pre' @ rest'" and l: "length pre' < length pre"
    from e s have "s = (c # pre') @ rest'" by simp
    moreover from l have "length (c # pre') < length (c # pre)" by simp
    ultimately have "m (if c # pre' = [] then prev else Some (last (c # pre'))) rest' = None"
      by (rule Cons.prems(3))
    then show "m (if pre' = [] then Some c else Some (last pre')) rest' = None"
      by (cases "pre' = []") simp_all
  qed
  with 0 s show ?case by simp
qed

lemma re_search_Some:
  "re_search m prev s = Some r \<Longrightarrow>
   \<exists>pre rest. s = pre @ rest \<and> m (if pre = [] then prev else Some (last pre)) rest = Some r"
proof (induction s arbitrary: prev)
  case Nil
  then have "m prev [] = Some r" by simp
  then have "[] = [] @ [] \<and> m (if [] = ([]::string) then prev else Some (last [])) [] = Some r"
    by simp
  then show ?case by (intro exI [of _ "[]"])
next
  case (Cons c cs)
  show ?case
  proof (cases "m prev (c # cs)")
    case (Some a)
    with Cons.prems have "m prev (c # cs) = Some r" by simp
    then have "c # cs = [] @ (c # cs) \<and>
        m (if [] = ([]::string) then prev else Some (last [])) (c # cs) = Some r" by simp
    then show ?thesis by (intro exI [of _ "[]"] exI [of _ "c # cs"])
  next
    case None
    with Cons.prems have "re_search m (Some c) cs = Some r" by simp
    then have "\<exists>pre rest. cs = pre @ rest \<and>
       m (if pre = [] then Some c else Some (last pre)) rest = Some r" by (rule Cons.IH)
    then obtain pre rest where
      a: "cs = pre @ rest" and b: "m (if pre = [] then Some c else Some (last pre)) rest = Some r"
      by (elim exE conjE)
    from a have 1: "c # cs = (c # pre) @ rest" by simp
    from b have 2:
      "m (if c # pre = [] then prev else Some (last (c # pre))) rest = Some r"
      by (cases "pre = []") simp_all
    from 1 2 show ?thesis by (intro exI [of _ "c # pre"] exI [of _ rest] conjI)
  qed
qed

section \<open>Properties of term detection\<close>

lemma char_of_digits_1_4:
  "char_of (49::nat) = CHR ''1''" "char_of (50::nat) = CHR ''2''"
  "char_of (51::nat) = CHR ''3''" "char_of (52::nat) = CHR ''4''"
  by code_simp+

lemma digit_1_4: "(49 \<le> ord k \<and> ord k \<le> 52) = (k \<in> set ''1234'')"
proof
  assume a: "49 \<le> ord k \<and> ord k \<le> 52"
  have k: "char_of (ord k) = k" by (simp add: ord_def)
  from a have "ord k = 49 \<or> ord k = 50 \<or> ord k = 51 \<or> ord k = 52" by arith
  then have "char_of (ord k) \<in> set ''1234''"
    by (elim disjE) (simp_all only: char_of_digits_1_4, simp_all)
  then show "k \<in> set ''1234''" by (simp only: k)
next
  assume "k \<in> set ''1234''"
  then show "49 \<le> ord k \<and> ord k \<le> 52" by (auto simp: ord_def)
qed

lemma digit_isword: "isdecimal c \<Longrightarrow> isword c"
  by (simp add: isword_def Let_def)

lemma digit_1_4_decimal: "k \<in> set ''1234'' \<Longrightarrow> isdecimal k"
  by (auto simp: isdecimal_def ord_def)

lemma word_boundary_before_word:
  "isword c \<Longrightarrow> word_boundary prev (c # cs) =
     (case prev of None \<Rightarrow> True | Some p \<Rightarrow> \<not> isword p)"
  by (simp add: word_boundary_def split: option.splits)

lemma word_boundary_after_word:
  "isword k \<Longrightarrow> word_boundary (Some k) post = (post = [] \<or> \<not> isword (hd post))"
  by (cases post) (simp_all add: word_boundary_def)

lemma prev_not_word:
  "(case (if pre = [] then None else Some (last pre)) of None \<Rightarrow> True | Some p \<Rightarrow> \<not> isword p) =
   (pre = [] \<or> \<not> isword (last pre))"
  by simp
lemma length_6_list:
  "length xs = 6 \<Longrightarrow> xs = [xs ! 0, xs ! 1, xs ! 2, xs ! 3, xs ! 4, xs ! 5]"
  by (auto simp: eval_nat_numeral length_Suc_conv)

lemma length_4_list:
  "length xs = 4 \<Longrightarrow> xs = [xs ! 0, xs ! 1, xs ! 2, xs ! 3]"
  by (auto simp: eval_nat_numeral length_Suc_conv)

lemma two_isword: "isword (CHR ''2'')"
  by (simp add: isword_def isdecimal_def ord_def)

lemma term_code_at_complete:
  assumes "term_code pre code post"
  shows "term_code_at (if pre = [] then None else Some (last pre)) (code @ post) = Some code"
proof -
  from assms obtain c d k where
    code: "code = [CHR ''2'', CHR ''0'', c, d, CHR ''0'', k]" and
    cd: "isdecimal c" "isdecimal d" and k: "k \<in> set ''1234''" and
    b: "pre = [] \<or> \<not> isword (last pre)" and a: "post = [] \<or> \<not> isword (hd post)"
    unfolding term_code_def by blast
  have kw: "isword k" using k by (intro digit_isword digit_1_4_decimal)
  have k14: "49 \<le> ord k \<and> ord k \<le> 52" using k by (simp only: digit_1_4)
  have wb1: "word_boundary (if pre = [] then None else Some (last pre)) (code @ post)"
    using b unfolding code by (auto simp: word_boundary_before_word two_isword)
  have wb2: "word_boundary (Some k) post"
    using a kw by (simp only: word_boundary_after_word)
  show ?thesis
    unfolding term_code_at_def Let_def
    using wb1 wb2 cd k14 by (simp add: code)
qed

lemma term_code_at_sound:
  assumes "term_code_at (if pre = [] then None else Some (last pre)) rest = Some code"
  shows "\<exists>post. rest = code @ post \<and> term_code pre code post"
proof -
  let ?prev = "if pre = [] then None else Some (last pre)"
  let ?t = "take 6 rest"
  from assms have c: "code = ?t" and
    wb1: "word_boundary ?prev rest" and len: "length ?t = 6" and
    d: "?t ! 0 = CHR ''2''" "?t ! 1 = CHR ''0''" "isdecimal (?t ! 2)" "isdecimal (?t ! 3)"
       "?t ! 4 = CHR ''0''" and k14: "49 \<le> ord (?t ! 5) \<and> ord (?t ! 5) \<le> 52" and
    wb2: "word_boundary (Some (?t ! 5)) (drop 6 rest)"
    unfolding term_code_at_def Let_def by (simp_all split: if_splits)
  have k: "?t ! 5 \<in> set ''1234''" using k14 by (simp only: digit_1_4)
  have kw: "isword (?t ! 5)" using k by (intro digit_isword digit_1_4_decimal)
  have shape: "?t = [CHR ''2'', CHR ''0'', ?t ! 2, ?t ! 3, CHR ''0'', ?t ! 5]"
    using length_6_list [OF len] d(1,2,5) by simp
  have r: "rest = ?t @ drop 6 rest" by simp
  obtain x xs where x: "rest = x # xs" "x = CHR ''2''"
    using len d(1) by (cases rest) auto
  have before: "pre = [] \<or> \<not> isword (last pre)"
    using wb1 unfolding x by (simp add: word_boundary_before_word two_isword split: if_splits)
  have after: "drop 6 rest = [] \<or> \<not> isword (hd (drop 6 rest))"
    using wb2 kw by (simp only: word_boundary_after_word)
  have "term_code pre ?t (drop 6 rest)"
    unfolding term_code_def using shape d(3,4) k before after by blast
  with r c show ?thesis by blast
qed
lemma term_from_code_valid:
  assumes "code = [CHR ''2'', CHR ''0'', c, d, CHR ''0'', k]"
    and "isdecimal d" and "k \<in> set ''1234''"
  shows "term_from_code code = Inr (season_of k @ '' '' @ take 4 code)"
proof -
  have nd: "\<not> isspace d" using assms(2) by (rule isdecimal_not_isspace)
  have kd: "isdecimal k" using assms(3) by (rule digit_1_4_decimal)
  have sm: "(case season_map (ord k - 48) of Some season \<Rightarrow> season | None \<Rightarrow> '''') = season_of k"
    using assms(3) by (auto simp: season_map_def season_of_def ord_def)
  let ?t = "season_of k @ '' '' @ [CHR ''2'', CHR ''0'', c, d]"
  have ne: "season_of k \<noteq> []" using assms(3) by (auto simp: season_of_def)
  have hd: "\<not> isspace (hd ?t)"
    using assms(3) by (auto simp: season_of_def isspace_def ord_def)
  have "last ?t = d" by simp
  with nd have "\<not> isspace (last ?t)" by simp
  with hd have "strip ?t = ?t" by (intro strip_id disjI2 conjI)
  then show ?thesis
    unfolding term_from_code_def using kd sm by (simp add: assms(1))
qed

lemma first_guess_valid:
  assumes "code = [CHR ''2'', CHR ''0'', c, d, CHR ''0'', k]"
    and "isdecimal d" and "k \<in> set ''1234''"
  shows "first_guess (code # others) = Inr (season_of k @ '' '' @ take 4 code)"
  using term_from_code_valid [OF assms] by simp

lemma finditer_of_search_None:
  "re_search term_code_at prev s = None \<Longrightarrow> term_code_finditer prev s = []"
proof (induction s arbitrary: prev)
  case Nil
  then show ?case by simp
next
  case (Cons c cs)
  then show ?case by (simp split: option.splits)
qed

lemma finditer_of_search_Some:
  "re_search term_code_at prev s = Some code \<Longrightarrow>
   \<exists>others. term_code_finditer prev s = code # others"
proof (induction s arbitrary: prev)
  case Nil
  then have "term_code_at prev [] = Some code" by simp
  then show ?case by (simp add: term_code_at_def)
next
  case (Cons c cs)
  show ?case
  proof (cases "term_code_at prev (c # cs)")
    case None
    with Cons.prems have "re_search term_code_at (Some c) cs = Some code" by simp
    from Cons.IH [OF this] None show ?thesis by simp
  next
    case (Some a)
    with Cons.prems have "a = code" by simp
    with Some show ?thesis by simp
  qed
qed
lemma match_literal_ci_sound:
  "match_literal_ci name s = Some (m, rest) \<Longrightarrow>
   s = m @ rest \<and> length m = length name \<and> map lower m = map lower name"
proof (induction name s arbitrary: m rest rule: match_literal_ci.induct)
  case (1 s)
  then show ?case by simp
next
  case (2 p ps)
  then show ?case by simp
next
  case (3 p ps c cs)
  from "3.prems" have l: "lower c = lower p" by (simp split: if_splits)
  with "3.prems" obtain m' where
    m': "match_literal_ci ps cs = Some (m', rest)" and m: "m = c # m'"
    by (auto split: option.splits)
  from "3.IH" [OF l m'] l m show ?case by simp
qed

lemma match_literal_ci_complete:
  "length m = length name \<Longrightarrow> map lower m = map lower name \<Longrightarrow>
   match_literal_ci name (m @ rest) = Some (m, rest)"
proof (induction name arbitrary: m)
  case Nil
  then show ?case by simp
next
  case (Cons p ps)
  then obtain c cs where m: "m = c # cs" by (cases m) auto
  with Cons.prems have "length cs = length ps" "map lower cs = map lower ps" "lower c = lower p"
    by simp_all
  with Cons.IH [of cs] m show ?case by simp
qed

lemma term_year_complete:
  assumes "ws \<noteq> []" and "list_all isspace ws"
    and "y = [CHR ''2'', CHR ''0'', c, d]" and "isdecimal c" and "isdecimal d"
    and "post = [] \<or> \<not> isword (hd post)"
  shows "term_year (ws @ y @ post) = Some y"
proof -
  have h: "isspace (hd (ws @ y @ post))" using assms(1,2) by (cases ws) auto
  have n2: "\<not> isspace (CHR ''2'')" by (simp add: isspace_def ord_def)
  have dw: "dropWhile isspace (ws @ y @ post) = y @ post"
    using assms(2) n2 unfolding assms(3) by (simp add: list_all_iff dropWhile_append3)
  have wb: "word_boundary (Some d) post"
    using assms(6) digit_isword [OF assms(5)] by (simp only: word_boundary_after_word)
  show ?thesis
    unfolding term_year_def Let_def dw
    using assms(1,4,5) h wb by (simp add: assms(3))
qed

lemma term_year_sound:
  assumes "term_year r = Some y"
  shows "\<exists>ws post. r = ws @ y @ post \<and> ws \<noteq> [] \<and> list_all isspace ws \<and>
           (\<exists>c d. y = [CHR ''2'', CHR ''0'', c, d] \<and> isdecimal c \<and> isdecimal d) \<and>
           (post = [] \<or> \<not> isword (hd post))"
proof -
  let ?s1 = "dropWhile isspace r"
  let ?t = "take 4 ?s1"
  from assms have y: "y = ?t" and rne: "r \<noteq> []" and hs: "isspace (hd r)" and
    len: "length ?t = 4" and
    d: "?t ! 0 = CHR ''2''" "?t ! 1 = CHR ''0''" "isdecimal (?t ! 2)" "isdecimal (?t ! 3)" and
    wb: "word_boundary (Some (?t ! 3)) (drop 4 ?s1)"
    unfolding term_year_def Let_def by (simp_all split: if_splits)
  have shape: "?t = [CHR ''2'', CHR ''0'', ?t ! 2, ?t ! 3]"
    using length_4_list [OF len] d(1,2) by simp
  have ws: "takeWhile isspace r \<noteq> []" using rne hs by (rule takeWhile_nonempty)
  have wa: "list_all isspace (takeWhile isspace r)"
    by (auto simp: list_all_iff dest: set_takeWhileD)
  have "takeWhile isspace r @ ?t @ drop 4 ?s1 = r"
    by (simp only: append_take_drop_id takeWhile_dropWhile_id)
  then have r: "r = takeWhile isspace r @ ?t @ drop 4 ?s1" by (rule sym)
  have after: "drop 4 ?s1 = [] \<or> \<not> isword (hd (drop 4 ?s1))"
    using wb digit_isword [OF d(4)] by (simp only: word_boundary_after_word)
  have ex: "\<exists>c d. ?t = [CHR ''2'', CHR ''0'', c, d] \<and> isdecimal c \<and> isdecimal d"
    using shape d(3,4) by blast
  from r ws wa ex after show ?thesis
    unfolding y
    by (intro exI [of _ "takeWhile isspace r"] exI [of _ "drop 4 ?s1"] conjI)
qed
lemma upper_set: "c \<in> set ''ABCDEFGHIJKLMNOPQRSTUVWXYZ'' \<Longrightarrow> isupper_AZ c"
  by (auto simp: isupper_AZ_def ord_def)

lemma lower_id: "c \<notin> set ''ABCDEFGHIJKLMNOPQRSTUVWXYZ'' \<Longrightarrow> lower c = c"
  by (simp add: lower_def)

lemma lower_letter:
  assumes "lower c = d" and "islower_az d"
  shows "isupper_AZ c \<or> islower_az c"
proof (cases "c \<in> set ''ABCDEFGHIJKLMNOPQRSTUVWXYZ''")
  case True
  then have "isupper_AZ c" by (rule upper_set)
  then show ?thesis ..
next
  case False
  then have "lower c = c" by (rule lower_id)
  with assms have "islower_az c" by simp
  then show ?thesis ..
qed

lemma letter_isword: "isupper_AZ c \<or> islower_az c \<Longrightarrow> isword c"
  by (auto simp: isword_def Let_def)

lemma upper_of_lower_sfw:
  "lower c = CHR ''s'' \<Longrightarrow> upper c = CHR ''S''"
  "lower c = CHR ''f'' \<Longrightarrow> upper c = CHR ''F''"
  "lower c = CHR ''w'' \<Longrightarrow> upper c = CHR ''W''"
  by (auto simp: lower_def upper_def split: if_splits)

lemma title_from_letters:
  "list_all (\<lambda>c. isupper_AZ c \<or> islower_az c) m \<Longrightarrow>
   title_from True m = map lower m"
  by (induction m) auto

lemma title_letters:
  assumes "list_all (\<lambda>c. isupper_AZ c \<or> islower_az c) (c # cs)"
  shows "title (c # cs) = upper c # map lower cs"
  using assms by (simp add: title_def title_from_letters)

lemma season_names_lower:
  assumes "name \<in> set [''Spring'', ''Summer'', ''Fall'', ''Winter'']"
  shows "list_all islower_az (map lower name)"
  using assms by (auto simp: lower_def islower_az_def ord_def)

lemma ci_letters:
  assumes "map lower m = map lower name"
    and "name \<in> set [''Spring'', ''Summer'', ''Fall'', ''Winter'']"
  shows "list_all (\<lambda>c. isupper_AZ c \<or> islower_az c) m"
proof -
  have "\<forall>c \<in> set m. isupper_AZ c \<or> islower_az c"
  proof
    fix c assume "c \<in> set m"
    then have "lower c \<in> set (map lower m)" by simp
    with assms(1) have "lower c \<in> set (map lower name)" by simp
    with season_names_lower [OF assms(2)] have "islower_az (lower c)"
      by (auto simp: list_all_iff)
    with refl show "isupper_AZ c \<or> islower_az c" by (rule lower_letter)
  qed
  then show ?thesis by (simp add: list_all_iff)
qed

lemma title_season:
  assumes "map lower m = map lower name"
    and "name \<in> set [''Spring'', ''Summer'', ''Fall'', ''Winter'']"
  shows "title m = name"
proof -
  have letters: "list_all (\<lambda>c. isupper_AZ c \<or> islower_az c) m"
    using assms by (rule ci_letters)
  from assms(2) have "name \<noteq> []" by auto
  with assms(1) obtain c cs where m: "m = c # cs" by (cases m) auto
  have t: "title m = upper c # map lower cs"
    using letters unfolding m by (rule title_letters)
  from assms(2) consider "name = ''Spring''" | "name = ''Summer''" | "name = ''Fall''"
    | "name = ''Winter''" by auto
  then show ?thesis
  proof cases
    case 1
    with assms(1) m have "lower c = CHR ''s''" "map lower cs = ''pring''"
      by (simp_all add: lower_def)
    with t 1 show ?thesis by (simp add: upper_of_lower_sfw)
  next
    case 2
    with assms(1) m have "lower c = CHR ''s''" "map lower cs = ''ummer''"
      by (simp_all add: lower_def)
    with t 2 show ?thesis by (simp add: upper_of_lower_sfw)
  next
    case 3
    with assms(1) m have "lower c = CHR ''f''" "map lower cs = ''all''"
      by (simp_all add: lower_def)
    with t 3 show ?thesis by (simp add: upper_of_lower_sfw)
  next
    case 4
    with assms(1) m have "lower c = CHR ''w''" "map lower cs = ''inter''"
      by (simp_all add: lower_def)
    with t 4 show ?thesis by (simp add: upper_of_lower_sfw)
  qed
qed
lemma alternatives_sound:
  "term_text_alternatives names s = Some (m, y) \<Longrightarrow>
   \<exists>name \<in> set names. \<exists>rest. match_literal_ci name s = Some (m, rest) \<and>
      term_year rest = Some y"
proof (induction names)
  case Nil
  then show ?case by simp
next
  case (Cons name names)
  show ?case
  proof (cases "term_text_alternatives names s = Some (m, y)")
    case True
    from Cons.IH [OF this] show ?thesis by auto
  next
    case False
    with Cons.prems obtain rest where
      "match_literal_ci name s = Some (m, rest)" "term_year rest = Some y"
      by (auto split: option.splits)
    then show ?thesis by auto
  qed
qed

lemma alternatives_complete:
  assumes "name \<in> set names"
    and "match_literal_ci name s = Some (m, rest)" and "term_year rest = Some y"
    and "\<forall>n \<in> set names. n \<noteq> name \<longrightarrow> match_literal_ci n s = None"
  shows "term_text_alternatives names s = Some (m, y)"
  using assms(1,4)
proof (induction names)
  case Nil
  then show ?case by simp
next
  case (Cons n names)
  show ?case
  proof (cases "n = name")
    case True
    with assms(2,3) show ?thesis by simp
  next
    case False
    with Cons.prems have "match_literal_ci n s = None" "name \<in> set names" by auto
    with Cons show ?thesis by simp
  qed
qed

lemma season_key:
  assumes "name \<in> set [''Spring'', ''Summer'', ''Fall'', ''Winter'']"
    and "match_literal_ci name s = Some (m, rest)"
  shows "map lower (take 2 s) = take 2 (map lower name)"
proof -
  from match_literal_ci_sound [OF assms(2)] have
    s: "s = m @ rest" and l: "length m = length name" and e: "map lower m = map lower name"
    by auto
  from assms(1) have "2 \<le> length name" by auto
  with l s have "take 2 s = take 2 m" by simp
  then have "map lower (take 2 s) = take 2 (map lower m)" by (simp add: take_map)
  with e show ?thesis by simp
qed

lemma season_keys:
  "take 2 (map lower ''Spring'') = ''sp''" "take 2 (map lower ''Summer'') = ''su''"
  "take 2 (map lower ''Fall'') = ''fa''" "take 2 (map lower ''Winter'') = ''wi''"
  by code_simp+

lemma season_unique:
  assumes "n1 \<in> set [''Spring'', ''Summer'', ''Fall'', ''Winter'']"
    and "n2 \<in> set [''Spring'', ''Summer'', ''Fall'', ''Winter'']"
    and "take 2 (map lower n1) = take 2 (map lower n2)"
  shows "n1 = n2"
proof -
  from assms(1) have a: "n1 = ''Spring'' \<or> n1 = ''Summer'' \<or> n1 = ''Fall'' \<or> n1 = ''Winter''"
    by simp
  from assms(2) have b: "n2 = ''Spring'' \<or> n2 = ''Summer'' \<or> n2 = ''Fall'' \<or> n2 = ''Winter''"
    by simp
  from a b assms(3) show ?thesis
    by (elim disjE; simp only: season_keys; simp)
qed

lemma season_match_unique:
  assumes "name \<in> set [''Spring'', ''Summer'', ''Fall'', ''Winter'']"
    and "match_literal_ci name s = Some (m, rest)"
  shows "\<forall>n \<in> set [''Spring'', ''Summer'', ''Fall'', ''Winter''].
           n \<noteq> name \<longrightarrow> match_literal_ci n s = None"
proof (intro ballI impI)
  fix n
  assume n: "n \<in> set [''Spring'', ''Summer'', ''Fall'', ''Winter'']" and ne: "n \<noteq> name"
  show "match_literal_ci n s = None"
  proof (rule ccontr)
    assume "match_literal_ci n s \<noteq> None"
    then obtain m' rest' where "match_literal_ci n s = Some (m', rest')" by auto
    from season_key [OF n this] season_key [OF assms]
    have "take 2 (map lower n) = take 2 (map lower name)" by simp
    from season_unique [OF n assms(1) this] ne show False by simp
  qed
qed

lemma season_first_letter:
  assumes "map lower m = map lower name"
    and "name \<in> set [''Spring'', ''Summer'', ''Fall'', ''Winter'']"
  shows "m \<noteq> [] \<and> isword (hd m)"
proof -
  from assms(2) have "name \<noteq> []" by auto
  with assms(1) obtain c cs where m: "m = c # cs" by (cases m) auto
  from ci_letters [OF assms] m have "isupper_AZ c \<or> islower_az c" by simp
  then have "isword c" by (rule letter_isword)
  with m show ?thesis by simp
qed

lemma term_text_at_complete:
  assumes "term_phrase pre name s ws y post"
  shows "term_text_at (if pre = [] then None else Some (last pre)) (s @ ws @ y @ post) =
         Some (s, y)"
proof -
  from assms obtain c d where
    n: "name \<in> set [''Spring'', ''Summer'', ''Fall'', ''Winter'']" and
    e: "map lower s = map lower name" and
    w: "ws \<noteq> []" "list_all isspace ws" and
    y: "y = [CHR ''2'', CHR ''0'', c, d]" "isdecimal c" "isdecimal d" and
    b: "pre = [] \<or> \<not> isword (last pre)" and a: "post = [] \<or> \<not> isword (hd post)"
    unfolding term_phrase_def ci_equal_def by blast
  from e have len: "length s = length name" by (rule map_eq_imp_length_eq)
  have m: "match_literal_ci name (s @ ws @ y @ post) = Some (s, ws @ y @ post)"
    using len e by (rule match_literal_ci_complete)
  have ty: "term_year (ws @ y @ post) = Some y"
    using w y a by (rule term_year_complete)
  have alt: "term_text_alternatives [''Spring'', ''Summer'', ''Fall'', ''Winter'']
               (s @ ws @ y @ post) = Some (s, y)"
    using n m ty season_match_unique [OF n m] by (rule alternatives_complete)
  from season_first_letter [OF e n] obtain x xs where s: "s = x # xs" and x: "isword x"
    by (cases s) auto
  have "word_boundary (if pre = [] then None else Some (last pre)) (s @ ws @ y @ post)"
    using b x unfolding s by (auto simp: word_boundary_before_word)
  with alt show ?thesis by (simp only: term_text_at_def if_True)
qed

lemma term_text_at_sound:
  assumes "term_text_at (if pre = [] then None else Some (last pre)) rest = Some (m, y)"
  shows "\<exists>name ws post. rest = m @ ws @ y @ post \<and> term_phrase pre name m ws y post"
proof -
  let ?prev = "if pre = [] then None else Some (last pre)"
  from assms have wb: "word_boundary ?prev rest" and
    alt: "term_text_alternatives [''Spring'', ''Summer'', ''Fall'', ''Winter''] rest = Some (m, y)"
    unfolding term_text_at_def by (simp_all split: if_splits)
  from alternatives_sound [OF alt] obtain name r where
    n: "name \<in> set [''Spring'', ''Summer'', ''Fall'', ''Winter'']" and
    ml: "match_literal_ci name rest = Some (m, r)" and ty: "term_year r = Some y"
    by blast
  from match_literal_ci_sound [OF ml] have
    rest: "rest = m @ r" and e: "map lower m = map lower name" by auto
  from term_year_sound [OF ty] obtain ws post where
    r: "r = ws @ y @ post" and w: "ws \<noteq> []" "list_all isspace ws" and
    ys: "\<exists>c d. y = [CHR ''2'', CHR ''0'', c, d] \<and> isdecimal c \<and> isdecimal d" and
    a: "post = [] \<or> \<not> isword (hd post)" by blast
  from season_first_letter [OF e n] obtain x xs where m: "m = x # xs" and x: "isword x"
    by (cases m) auto
  have b: "pre = [] \<or> \<not> isword (last pre)"
    using wb x unfolding rest m
    by (auto simp: word_boundary_before_word split: if_splits)
  have "term_phrase pre name m ws y post"
    unfolding term_phrase_def ci_equal_def using n e w ys b a by (intro conjI)
  moreover have "rest = m @ ws @ y @ post" using rest r by simp
  ultimately show ?thesis by (intro exI conjI)
qed
lemma re_search_None_conv:
  assumes "re_search m prev s = None" and "s = pre @ rest"
  shows "m (if pre = [] then prev else Some (last pre)) rest = None"
  using assms
proof (induction pre arbitrary: s prev)
  case Nil
  then show ?case by (cases rest) (simp_all split: option.splits)
next
  case (Cons c pre)
  from Cons.prems have "re_search m (Some c) (pre @ rest) = None"
    by (simp split: option.splits)
  from Cons.IH [OF this refl] show ?case by (cases "pre = []") simp_all
qed

lemma no_term_phrase:
  assumes "re_search term_text_at None header = None"
  shows "\<forall>pre name s ws y post.
           header = pre @ s @ ws @ y @ post \<longrightarrow> \<not> term_phrase pre name s ws y post"
proof (intro allI impI notI)
  fix pre name s ws y post
  assume h: "header = pre @ s @ ws @ y @ post" and p: "term_phrase pre name s ws y post"
  from re_search_None_conv [OF assms h]
  have "term_text_at (if pre = [] then None else Some (last pre)) (s @ ws @ y @ post) = None" .
  with term_text_at_complete [OF p] show False by simp
qed

lemma no_term_code:
  assumes "re_search term_code_at None header = None"
  shows "\<forall>pre code post. header = pre @ code @ post \<longrightarrow> \<not> term_code pre code post"
proof (intro allI impI notI)
  fix pre code post
  assume h: "header = pre @ code @ post" and p: "term_code pre code post"
  from re_search_None_conv [OF assms h]
  have "term_code_at (if pre = [] then None else Some (last pre)) (code @ post) = None" .
  with term_code_at_complete [OF p] show False by simp
qed

lemma text_search_None:
  assumes "\<forall>pre name s ws y post.
             header = pre @ s @ ws @ y @ post \<longrightarrow> \<not> term_phrase pre name s ws y post"
  shows "re_search term_text_at None header = None"
proof (rule re_search_None)
  fix pre rest
  assume h: "header = pre @ rest"
  show "term_text_at (if pre = [] then None else Some (last pre)) rest = None"
  proof (rule ccontr)
    assume "term_text_at (if pre = [] then None else Some (last pre)) rest \<noteq> None"
    then obtain m y where
      "term_text_at (if pre = [] then None else Some (last pre)) rest = Some (m, y)" by auto
    from term_text_at_sound [OF this] obtain name ws post where
      "rest = m @ ws @ y @ post" "term_phrase pre name m ws y post" by blast
    with h assms show False by blast
  qed
qed

lemma code_search_None:
  assumes "\<forall>pre code post. header = pre @ code @ post \<longrightarrow> \<not> term_code pre code post"
  shows "re_search term_code_at None header = None"
proof (rule re_search_None)
  fix pre rest
  assume h: "header = pre @ rest"
  show "term_code_at (if pre = [] then None else Some (last pre)) rest = None"
  proof (rule ccontr)
    assume "term_code_at (if pre = [] then None else Some (last pre)) rest \<noteq> None"
    then obtain code where
      "term_code_at (if pre = [] then None else Some (last pre)) rest = Some code" by auto
    from term_code_at_sound [OF this] obtain post where
      "rest = code @ post" "term_code pre code post" by blast
    with h assms show False by blast
  qed
qed

lemma code_search_first:
  assumes "header = pre @ code @ post" and "term_code pre code post"
    and "\<forall>pre' code' post'. header = pre' @ code' @ post' \<and> term_code pre' code' post' \<longrightarrow>
           length pre \<le> length pre'"
  shows "re_search term_code_at None header = Some code"
proof (rule re_search_first [OF assms(1)])
  show "term_code_at (if pre = [] then None else Some (last pre)) (code @ post) = Some code"
    using assms(2) by (rule term_code_at_complete)
next
  fix pre' rest'
  assume h: "header = pre' @ rest'" and l: "length pre' < length pre"
  show "term_code_at (if pre' = [] then None else Some (last pre')) rest' = None"
  proof (rule ccontr)
    assume "term_code_at (if pre' = [] then None else Some (last pre')) rest' \<noteq> None"
    then obtain code' where
      "term_code_at (if pre' = [] then None else Some (last pre')) rest' = Some code'" by auto
    from term_code_at_sound [OF this] obtain post' where
      "rest' = code' @ post'" "term_code pre' code' post'" by blast
    with h assms(3) have "length pre \<le> length pre'" by blast
    with l show False by simp
  qed
qed

lemma text_search_first:
  assumes "header = pre @ s @ ws @ y @ post" and "term_phrase pre name s ws y post"
    and "\<forall>pre' name' s' ws' y' post'.
           header = pre' @ s' @ ws' @ y' @ post' \<and> term_phrase pre' name' s' ws' y' post' \<longrightarrow>
           length pre \<le> length pre'"
  shows "re_search term_text_at None header = Some (s, y)"
proof (rule re_search_first [OF assms(1)])
  show "term_text_at (if pre = [] then None else Some (last pre)) (s @ ws @ y @ post) =
        Some (s, y)"
    using assms(2) by (rule term_text_at_complete)
next
  fix pre' rest'
  assume h: "header = pre' @ rest'" and l: "length pre' < length pre"
  show "term_text_at (if pre' = [] then None else Some (last pre')) rest' = None"
  proof (rule ccontr)
    assume "term_text_at (if pre' = [] then None else Some (last pre')) rest' \<noteq> None"
    then obtain m' y' where
      "term_text_at (if pre' = [] then None else Some (last pre')) rest' = Some (m', y')" by auto
    from term_text_at_sound [OF this] obtain name' ws' post' where
      "rest' = m' @ ws' @ y' @ post'" "term_phrase pre' name' m' ws' y' post'" by blast
    with h assms(3) have "length pre \<le> length pre'" by blast
    with l show False by simp
  qed
qed

section \<open>Term detection: explicit phrase and term code\<close>

text \<open>
  C8 (amended). Term detection first looks for an explicit phrase: a season name (Winter,
  Spring, Summer or Fall in any case), whitespace, and a four-digit year that begins with
  20, the whole delimited by word boundaries. For the first such phrase of the first
  page's text it returns the season with a capital first letter, a space, and the year.
\<close>

theorem explicit_term_phrase:
  assumes "header = pre @ s @ ws @ y @ post" and "term_phrase pre name s ws y post"
    and "\<forall>pre' name' s' ws' y' post'.
           header = pre' @ s' @ ws' @ y' @ post' \<and> term_phrase pre' name' s' ws' y' post' \<longrightarrow>
           length pre \<le> length pre'"
  shows "detect_term header = Inr (name @ '' '' @ y)"
proof -
  have s: "re_search term_text_at None header = Some (s, y)"
    using assms by (rule text_search_first)
  from assms(2) have "map lower s = map lower name"
    and "name \<in> set [''Spring'', ''Summer'', ''Fall'', ''Winter'']"
    unfolding term_phrase_def ci_equal_def by blast+
  then have "title s = name" by (rule title_season)
  with s show ?thesis by (simp add: detect_term_def)
qed

theorem explicit_term_phrase_witness:
  "detect_term ''fall  2025, Geography'' = Inr ''Fall 2025''"
proof -
  have 1: "''fall  2025, Geography'' = [] @ ''fall'' @ ''  '' @ ''2025'' @ '', Geography''"
    by simp
  have "ci_equal ''fall'' ''Fall''" unfolding ci_equal_def by code_simp
  moreover have "list_all isspace ''  ''" by (simp add: isspace_def ord_def)
  moreover have "\<exists>c d. ''2025'' = [CHR ''2'', CHR ''0'', c, d] \<and> isdecimal c \<and> isdecimal d"
    by (simp add: isdecimal_def ord_def)
  moreover have "\<not> isword (hd '', Geography'')" by code_simp
  ultimately have 2: "term_phrase [] ''Fall'' ''fall'' ''  '' ''2025'' '', Geography''"
    unfolding term_phrase_def by simp
  have 3: "\<forall>pre' name' s' ws' y' post'.
           ''fall  2025, Geography'' = pre' @ s' @ ws' @ y' @ post' \<and>
           term_phrase pre' name' s' ws' y' post' \<longrightarrow> length ([]::string) \<le> length pre'"
    by simp
  from explicit_term_phrase [OF 1 2 3] show ?thesis by simp
qed

theorem explicit_term_phrase_year_counterexample:
  "detect_term ''Fall 1999'' = Inr '''' \<and> detect_term ''Fall 2025'' = Inr ''Fall 2025''"
  by code_simp

text \<open>
  C7 (amended). When the first page's text has no explicit term phrase, term detection
  looks for a term code: six digits \<open>20dd0k\<close> with \<open>k\<close> from 1 to 4, delimited by word
  boundaries. For the first such code it returns the season of \<open>k\<close> (1 Winter, 2 Spring,
  3 Summer, 4 Fall), a space, and the code's first four digits; when there is no such code
  it returns the empty string.
\<close>

theorem term_code_detection:
  assumes "\<forall>pre name s ws y post.
             header = pre @ s @ ws @ y @ post \<longrightarrow> \<not> term_phrase pre name s ws y post"
  shows "(\<forall>pre code post.
            header = pre @ code @ post \<and> term_code pre code post \<and>
            (\<forall>pre' code' post'. header = pre' @ code' @ post' \<and> term_code pre' code' post' \<longrightarrow>
               length pre \<le> length pre') \<longrightarrow>
            detect_term header = Inr (season_of (last code) @ '' '' @ take 4 code)) \<and>
         ((\<forall>pre code post. header = pre @ code @ post \<longrightarrow> \<not> term_code pre code post) \<longrightarrow>
            detect_term header = Inr '''')"
proof (intro conjI allI impI)
  have t: "re_search term_text_at None header = None"
    using assms by (rule text_search_None)
  {
    fix pre code post
    assume a: "header = pre @ code @ post \<and> term_code pre code post \<and>
            (\<forall>pre' code' post'. header = pre' @ code' @ post' \<and> term_code pre' code' post' \<longrightarrow>
               length pre \<le> length pre')"
    then have "re_search term_code_at None header = Some code"
      by (intro code_search_first [of header pre code post]) blast+
    then obtain others where f: "term_code_finditer None header = code # others"
      using finditer_of_search_Some by blast
    from a obtain c d k where
      code: "code = [CHR ''2'', CHR ''0'', c, d, CHR ''0'', k]" and
      d: "isdecimal d" and k: "k \<in> set ''1234''"
      unfolding term_code_def by blast
    have "first_guess (code # others) = Inr (season_of k @ '' '' @ take 4 code)"
      using code d k by (rule first_guess_valid)
    moreover have "last code = k" using code by simp
    ultimately show "detect_term header = Inr (season_of (last code) @ '' '' @ take 4 code)"
      using t f by (simp add: detect_term_def)
  }
  {
    assume "\<forall>pre code post. header = pre @ code @ post \<longrightarrow> \<not> term_code pre code post"
    then have "re_search term_code_at None header = None" by (rule code_search_None)
    then have "term_code_finditer None header = []" by (rule finditer_of_search_None)
    with t show "detect_term header = Inr ''''" by (simp add: detect_term_def)
  }
qed

theorem term_code_detection_witness:
  "detect_term ''202503 Class List'' = Inr ''Summer 2025'' \<and>
   detect_term ''Class List'' = Inr ''''"
proof -
  have n1: "\<forall>pre name s ws y post.
      ''202503 Class List'' = pre @ s @ ws @ y @ post \<longrightarrow> \<not> term_phrase pre name s ws y post"
    by (rule no_term_phrase) code_simp
  have n2: "\<forall>pre name s ws y post.
      ''Class List'' = pre @ s @ ws @ y @ post \<longrightarrow> \<not> term_phrase pre name s ws y post"
    by (rule no_term_phrase) code_simp
  have n3: "\<forall>pre code post. ''Class List'' = pre @ code @ post \<longrightarrow> \<not> term_code pre code post"
    by (rule no_term_code) code_simp
  have c: "term_code [] ''202503'' '' Class List''"
    unfolding term_code_def by (simp add: isdecimal_def isword_def isupper_AZ_def
        islower_az_def ord_def)
  have h: "''202503 Class List'' = [] @ ''202503'' @ '' Class List''" by simp
  have f: "\<forall>pre' code' post'. ''202503 Class List'' = pre' @ code' @ post' \<and>
      term_code pre' code' post' \<longrightarrow> length ([]::string) \<le> length pre'" by simp
  from term_code_detection [OF n1] h c f
  have "detect_term ''202503 Class List'' =
        Inr (season_of (last ''202503'') @ '' '' @ take 4 ''202503'')" by blast
  then have 1: "detect_term ''202503 Class List'' = Inr ''Summer 2025''"
    by (simp add: season_of_def)
  from term_code_detection [OF n2] n3 have 2: "detect_term ''Class List'' = Inr ''''"
    by blast
  from 1 2 show ?thesis ..
qed

theorem term_code_shape_counterexample:
  "detect_term ''202513'' = Inr '''' \<and> detect_term ''202505'' = Inr '''' \<and>
   detect_term ''202503'' = Inr ''Summer 2025''"
  by code_simp

end
